theory Spec2Isabelle
  imports Complex_Main "HOL-Library.Word"
begin

section \<open>Strings of the analyzer\<close>

text \<open>
  A JavaScript string is a sequence of UTF-16 code units, and the regular expressions of
  the analyzer carry no \<^verbatim>\<open>u\<close> flag, so every character class tests one code
  unit. A code unit is a 16-bit word; \<open>length\<close> is the source's \<^verbatim>\<open>.length\<close>.
\<close>

type_synonym jschar = "16 word"
type_synonym jsstring = "jschar list"

definition js :: "string \<Rightarrow> jsstring" where
  "js s = map of_char s"

text \<open>The class \<^verbatim>\<open>\s\<close> of ECMAScript (white space and line terminators); the
  same set is what \<^verbatim>\<open>String.prototype.trim\<close> strips.\<close>

definition is_space :: "jschar \<Rightarrow> bool" where
  "is_space c \<longleftrightarrow>
     (9 \<le> c \<and> c \<le> 13) \<or> c = 32 \<or> c = 160 \<or> c = 0x1680 \<or>
     (0x2000 \<le> c \<and> c \<le> 0x200A) \<or> c = 0x2028 \<or> c = 0x2029 \<or> c = 0x202F \<or>
     c = 0x205F \<or> c = 0x3000 \<or> c = 0xFEFF"

definition is_upper :: "jschar \<Rightarrow> bool" where
  "is_upper c \<longleftrightarrow> 65 \<le> c \<and> c \<le> 90"

definition is_lower :: "jschar \<Rightarrow> bool" where
  "is_lower c \<longleftrightarrow> 97 \<le> c \<and> c \<le> 122"

definition is_digit :: "jschar \<Rightarrow> bool" where
  "is_digit c \<longleftrightarrow> 48 \<le> c \<and> c \<le> 57"

definition is_alpha :: "jschar \<Rightarrow> bool" where
  "is_alpha c \<longleftrightarrow> is_upper c \<or> is_lower c"

text \<open>The class \<^verbatim>\<open>\w\<close>: letters, digits and the underscore.\<close>

definition is_word :: "jschar \<Rightarrow> bool" where
  "is_word c \<longleftrightarrow> is_alpha c \<or> is_digit c \<or> c = 95"

text \<open>The class \<^verbatim>\<open>[.,!?;:'"()\[\]{}]\<close>.\<close>

definition is_punct :: "jschar \<Rightarrow> bool" where
  "is_punct c \<longleftrightarrow> c \<in> set (js ''.,!?;:'') \<or> c = 39 \<or> c = 34 \<or> c \<in> set (js ''()[]{}'')"

text \<open>The class \<^verbatim>\<open>[^\s\w]\<close>.\<close>

definition is_special :: "jschar \<Rightarrow> bool" where
  "is_special c \<longleftrightarrow> \<not> is_space c \<and> \<not> is_word c"

definition trim :: "jsstring \<Rightarrow> jsstring" where
  "trim s = rev (dropWhile is_space (rev (dropWhile is_space s)))"

section \<open>Anchored patterns\<close>

text \<open>
  Each pattern of the tokenizers is anchored at the start of the remaining text. A
  pattern is modelled by the function that returns \<^verbatim>\<open>match[0]\<close>, or \<open>None\<close>
  where \<^verbatim>\<open>remaining.match(pattern)\<close> is null. All quantifiers are greedy and
  nothing follows them, so the match is the longest one.
\<close>

type_synonym pattern = "jsstring \<Rightarrow> jsstring option"

text \<open>\<^verbatim>\<open>/^[c]+/\<close> for a class \<open>c\<close>: one code unit of the class, then as many
  as follow.\<close>

definition pat_run :: "(jschar \<Rightarrow> bool) \<Rightarrow> pattern" where
  "pat_run c s =
     (case s of [] \<Rightarrow> None | x # r \<Rightarrow> if c x then Some (x # takeWhile c r) else None)"

text \<open>\<^verbatim>\<open>/^[c]{1,n}/\<close>, for \<open>n \<ge> 1\<close>.\<close>

definition pat_run_upto :: "nat \<Rightarrow> (jschar \<Rightarrow> bool) \<Rightarrow> pattern" where
  "pat_run_upto n c s =
     (case s of [] \<Rightarrow> None
      | x # r \<Rightarrow> if c x then Some (x # take (n - 1) (takeWhile c r)) else None)"

text \<open>\<^verbatim>\<open>/^[c]/\<close>: one code unit of the class.\<close>

definition pat_one :: "(jschar \<Rightarrow> bool) \<Rightarrow> pattern" where
  "pat_one c s = (case s of [] \<Rightarrow> None | x # _ \<Rightarrow> if c x then Some [x] else None)"

text \<open>\<^verbatim>\<open>/^[A-Z][a-z]+/\<close>.\<close>

definition pat_capitalized :: pattern where
  "pat_capitalized s =
     (case s of [] \<Rightarrow> None
      | x # r \<Rightarrow> if is_upper x \<and> takeWhile is_lower r \<noteq> []
                 then Some (x # takeWhile is_lower r) else None)"

text \<open>\<^verbatim>\<open>/^[A-Z][a-z]{0,5}/\<close>.\<close>

definition pat_capitalized_upto5 :: pattern where
  "pat_capitalized_upto5 s =
     (case s of [] \<Rightarrow> None
      | x # r \<Rightarrow> if is_upper x then Some (x # take 5 (takeWhile is_lower r)) else None)"

text \<open>\<^verbatim>\<open>/^\<close>U+2581\<^verbatim>\<open>?[A-Za-z]{1,6}/\<close>: the optional marker is taken when a
  letter follows it; a marker with no letter after it does not match, and neither does
  the empty alternative, since the marker is not a letter.\<close>

definition sp_marker :: jschar where
  "sp_marker = 0x2581"

definition pat_sentencepiece :: pattern where
  "pat_sentencepiece s =
     (case s of [] \<Rightarrow> None
      | x # r \<Rightarrow>
          if x = sp_marker then
            (case pat_run_upto 6 is_alpha r of None \<Rightarrow> None | Some w \<Rightarrow> Some (x # w))
          else pat_run_upto 6 is_alpha s)"

text \<open>The loop \<^verbatim>\<open>for (const pattern of patterns)\<close>: the first pattern that
  matches decides.\<close>

fun first_match :: "pattern list \<Rightarrow> jsstring \<Rightarrow> jsstring option" where
  "first_match [] s = None"
| "first_match (p # ps) s = (case p s of Some w \<Rightarrow> Some w | None \<Rightarrow> first_match ps s)"

section \<open>The three tokenizers\<close>

definition gpt_patterns :: "pattern list" where
  "gpt_patterns =
     [pat_run is_space, pat_capitalized, pat_run is_lower, pat_run is_digit,
      pat_one is_punct, pat_one is_special]"

definition claude_patterns :: "pattern list" where
  "claude_patterns =
     [pat_run is_space, pat_capitalized_upto5, pat_run_upto 5 is_lower, pat_run is_digit,
      pat_one is_punct, pat_one is_special]"

definition gemini_patterns :: "pattern list" where
  "gemini_patterns =
     [pat_sentencepiece, pat_run is_space, pat_run is_digit, pat_one is_special]"

text \<open>The inner loop of the primary tokenizer,
  \<^verbatim>\<open>for (let i = 0; i < word.length; i += 4) tokens.push(word.slice(i, Math.min(i + 4, word.length)))\<close>.\<close>

fun slices4 :: "jsstring \<Rightarrow> jsstring list" where
  "slices4 [] = []"
| "slices4 (x # xs) = take 4 (x # xs) # slices4 (drop 4 (x # xs))"

text \<open>What one match pushes in the primary tokenizer.\<close>

definition gpt_emit :: "jsstring \<Rightarrow> jsstring list" where
  "gpt_emit word = (if length word > 4 \<and> list_all is_alpha word then slices4 word else [word])"

text \<open>
  One iteration of a tokenizer's \<^verbatim>\<open>while (remaining.length > 0)\<close> loop on a
  non-empty \<open>remaining\<close>: the tokens pushed and the new \<open>remaining\<close>. The fallback
  pushes \<^verbatim>\<open>remaining[0]\<close> and slices one code unit off.
\<close>

definition tokenize_step ::
  "pattern list \<Rightarrow> (jsstring \<Rightarrow> jsstring list) \<Rightarrow> jsstring \<Rightarrow> jsstring list \<times> jsstring" where
  "tokenize_step pats emit remaining =
     (case first_match pats remaining of
        Some word \<Rightarrow> (emit word, drop (length word) remaining)
      | None \<Rightarrow> ([take 1 remaining], drop 1 remaining))"

function gpt_loop :: "jsstring \<Rightarrow> jsstring list \<Rightarrow> jsstring list" where
  "gpt_loop remaining tokens =
     (if remaining = [] then tokens
      else case tokenize_step gpt_patterns gpt_emit remaining of
        (out, remaining') \<Rightarrow> gpt_loop remaining' (tokens @ out))"
  by pat_completeness auto
termination
  by (relation "measure (\<lambda>(remaining, tokens). length remaining)")
     (auto simp: tokenize_step_def gpt_patterns_def pat_run_def pat_one_def pat_capitalized_def
           split: option.splits list.splits if_splits)

function claude_loop :: "jsstring \<Rightarrow> jsstring list \<Rightarrow> jsstring list" where
  "claude_loop remaining tokens =
     (if remaining = [] then tokens
      else case tokenize_step claude_patterns (\<lambda>word. [word]) remaining of
        (out, remaining') \<Rightarrow> claude_loop remaining' (tokens @ out))"
  by pat_completeness auto
termination
  by (relation "measure (\<lambda>(remaining, tokens). length remaining)")
     (auto simp: tokenize_step_def claude_patterns_def pat_run_def pat_one_def
                 pat_capitalized_upto5_def pat_run_upto_def
           split: option.splits list.splits if_splits)

function gemini_loop :: "jsstring \<Rightarrow> jsstring list \<Rightarrow> jsstring list" where
  "gemini_loop remaining tokens =
     (if remaining = [] then tokens
      else case tokenize_step gemini_patterns (\<lambda>word. [word]) remaining of
        (out, remaining') \<Rightarrow> gemini_loop remaining' (tokens @ out))"
  by pat_completeness auto
termination
  by (relation "measure (\<lambda>(remaining, tokens). length remaining)")
     (auto simp: tokenize_step_def gemini_patterns_def pat_run_def pat_one_def
                 pat_sentencepiece_def pat_run_upto_def
           split: option.splits list.splits if_splits)

text \<open>The tokenizers: \<^verbatim>\<open>if (!text) return []\<close>, then the loop from the whole text
  with no tokens yet.\<close>

definition approximateTokenize :: "jsstring \<Rightarrow> jsstring list" where
  "approximateTokenize text = (if text = [] then [] else gpt_loop text [])"

definition approximateClaudeTokenize :: "jsstring \<Rightarrow> jsstring list" where
  "approximateClaudeTokenize text = (if text = [] then [] else claude_loop text [])"

definition approximateGeminiTokenize :: "jsstring \<Rightarrow> jsstring list" where
  "approximateGeminiTokenize text = (if text = [] then [] else gemini_loop text [])"

subsection \<open>Vocabulary for the properties\<close>

text \<open>A pattern is sound when each of its matches is a non-empty prefix of the text.\<close>

definition sound :: "pattern \<Rightarrow> bool" where
  "sound p \<longleftrightarrow> (\<forall>s w. p s = Some w \<longrightarrow> w \<noteq> [] \<and> (\<exists>r. s = w @ r))"

text \<open>What a match pushes is sound when the tokens pushed for a non-empty word are at
  least one, at most as many as its code units, and concatenate to it.\<close>

definition emit_ok :: "(jsstring \<Rightarrow> jsstring list) \<Rightarrow> bool" where
  "emit_ok emit \<longleftrightarrow>
     (\<forall>w. w \<noteq> [] \<longrightarrow> concat (emit w) = w \<and> emit w \<noteq> [] \<and> length (emit w) \<le> length w)"

section \<open>Numbers\<close>

text \<open>
  A JavaScript Number is a finite double, an infinity or NaN. A finite double is a
  rational number; an arithmetic operation on finite doubles returns its exact result
  rounded to the nearest double, to the one with an even significand at a tie. The
  range of the exponent is not bounded in the model: a text of fewer than \<open>2\<^sup>5\<^sup>3\<close> code
  units and a chunk size below \<open>2\<^sup>5\<^sup>3\<close> in magnitude lead to no number that overflows
  or is subnormal. The two zeros are one value: no zero that the analyzer computes is
  used as a divisor, where alone they differ.
\<close>

text \<open>The power of two at or below a rational that is at least 1, by halving.\<close>

function scale_up :: "rat \<Rightarrow> rat" where
  "scale_up x = (if 2 \<le> x then 2 * scale_up (x / 2) else 1)"
  by pat_completeness auto
termination
proof (relation "measure (\<lambda>x. nat \<lfloor>x\<rfloor>)")
  show "wf (measure (\<lambda>x :: rat. nat \<lfloor>x\<rfloor>))"
    by simp
next
  fix x :: rat
  assume x: "2 \<le> x"
  have "x < of_int \<lfloor>x\<rfloor> + 1"
    using floor_correct [of x] by simp
  then have "x / 2 < of_int \<lfloor>x\<rfloor>"
    using x by linarith
  then have "\<lfloor>x / 2\<rfloor> < \<lfloor>x\<rfloor>"
    by (simp add: floor_less_iff)
  moreover have "0 < \<lfloor>x\<rfloor>"
    using x by simp
  ultimately show "(x / 2, x) \<in> measure (\<lambda>x. nat \<lfloor>x\<rfloor>)"
    by simp
qed

text \<open>The power of two at or below a positive rational that is below 1, by doubling.\<close>

function scale_down :: "rat \<Rightarrow> rat" where
  "scale_down x = (if 0 < x \<and> x < 1 then scale_down (2 * x) / 2 else 1)"
  by pat_completeness auto
termination
proof (relation "measure (\<lambda>x. nat \<lfloor>1 / x\<rfloor>)")
  show "wf (measure (\<lambda>x :: rat. nat \<lfloor>1 / x\<rfloor>))"
    by simp
next
  fix x :: rat
  assume x: "0 < x \<and> x < 1"
  then have y: "1 < 1 / x"
    by simp
  have h: "1 / (2 * x) = (1 / x) / 2"
    by simp
  have f: "1 \<le> \<lfloor>1 / x\<rfloor>"
    using y by simp
  then have f': "(1::rat) \<le> of_int \<lfloor>1 / x\<rfloor>"
    by (metis of_int_1 of_int_le_iff)
  have "1 / x < of_int \<lfloor>1 / x\<rfloor> + 1"
    using floor_correct [of "1 / x"] by simp
  then have "(1 / x) / 2 < of_int \<lfloor>1 / x\<rfloor>"
    using y f' by linarith
  then have "\<lfloor>1 / (2 * x)\<rfloor> < \<lfloor>1 / x\<rfloor>"
    unfolding h by (simp add: floor_less_iff)
  with f show "(2 * x, x) \<in> measure (\<lambda>x. nat \<lfloor>1 / x\<rfloor>)"
    by simp
qed

text \<open>The power of two \<open>2\<^sup>e\<close> with \<open>2\<^sup>e \<le> x < 2\<^sup>e\<^sup>+\<^sup>1\<close>, for a positive \<open>x\<close>.\<close>

definition binade :: "rat \<Rightarrow> rat" where
  "binade x = (if 1 \<le> x then scale_up x else scale_down x)"

text \<open>The nearest integer, the even one at a tie.\<close>

definition round_even :: "rat \<Rightarrow> int" where
  "round_even y =
     (let f = \<lfloor>y\<rfloor>; d = y - of_int f
      in if d < 1 / 2 then f else if 1 / 2 < d then f + 1 else if even f then f else f + 1)"

text \<open>Rounding to a double: the nearest multiple of \<open>2\<^sup>e\<^sup>-\<^sup>5\<^sup>2\<close>, which leaves a
  significand of 53 bits.\<close>

definition fl :: "rat \<Rightarrow> rat" where
  "fl x = (if x = 0 then 0
           else let q = binade \<bar>x\<bar> / 2 ^ 52 in of_int (round_even (x / q)) * q)"

datatype jsnum = Fin rat | PosInf | NegInf | NaN

text \<open>A count (a length, an index) is an integer below \<open>2\<^sup>5\<^sup>3\<close> and so a double as it is.\<close>

definition of_count :: "nat \<Rightarrow> jsnum" where
  "of_count n = Fin (of_nat n)"

text \<open>A decimal literal of the source denotes the double nearest to it.\<close>

definition lit :: "rat \<Rightarrow> jsnum" where
  "lit q = Fin (fl q)"

definition is_finite :: "jsnum \<Rightarrow> bool" where
  "is_finite x = (case x of Fin _ \<Rightarrow> True | _ \<Rightarrow> False)"

fun jsneg :: "jsnum \<Rightarrow> jsnum" where
  "jsneg (Fin a) = Fin (- a)"
| "jsneg PosInf = NegInf"
| "jsneg NegInf = PosInf"
| "jsneg NaN = NaN"

fun jsabs :: "jsnum \<Rightarrow> jsnum" where
  "jsabs (Fin a) = Fin \<bar>a\<bar>"
| "jsabs PosInf = PosInf"
| "jsabs NegInf = PosInf"
| "jsabs NaN = NaN"

fun jsadd :: "jsnum \<Rightarrow> jsnum \<Rightarrow> jsnum" where
  "jsadd (Fin a) (Fin b) = Fin (fl (a + b))"
| "jsadd NaN _ = NaN"
| "jsadd _ NaN = NaN"
| "jsadd PosInf NegInf = NaN"
| "jsadd NegInf PosInf = NaN"
| "jsadd PosInf _ = PosInf"
| "jsadd NegInf _ = NegInf"
| "jsadd (Fin a) b = b"

definition jssub :: "jsnum \<Rightarrow> jsnum \<Rightarrow> jsnum" where
  "jssub a b = jsadd a (jsneg b)"

text \<open>An infinity with the sign of a non-zero rational.\<close>

definition inf_of_sign :: "rat \<Rightarrow> jsnum" where
  "inf_of_sign a = (if a > 0 then PosInf else NegInf)"

fun jsmul :: "jsnum \<Rightarrow> jsnum \<Rightarrow> jsnum" where
  "jsmul (Fin a) (Fin b) = Fin (fl (a * b))"
| "jsmul NaN _ = NaN"
| "jsmul _ NaN = NaN"
| "jsmul PosInf (Fin b) = (if b = 0 then NaN else inf_of_sign b)"
| "jsmul NegInf (Fin b) = (if b = 0 then NaN else inf_of_sign (- b))"
| "jsmul (Fin a) PosInf = (if a = 0 then NaN else inf_of_sign a)"
| "jsmul (Fin a) NegInf = (if a = 0 then NaN else inf_of_sign (- a))"
| "jsmul PosInf PosInf = PosInf"
| "jsmul NegInf NegInf = PosInf"
| "jsmul PosInf NegInf = NegInf"
| "jsmul NegInf PosInf = NegInf"

text \<open>Division never raises: a finite number over zero is an infinity, zero over zero
  is NaN.\<close>

fun jsdiv :: "jsnum \<Rightarrow> jsnum \<Rightarrow> jsnum" where
  "jsdiv (Fin a) (Fin b) =
     (if b \<noteq> 0 then Fin (fl (a / b)) else if a = 0 then NaN else inf_of_sign a)"
| "jsdiv NaN _ = NaN"
| "jsdiv _ NaN = NaN"
| "jsdiv (Fin a) _ = Fin 0"
| "jsdiv PosInf (Fin b) = (if b \<ge> 0 then PosInf else NegInf)"
| "jsdiv NegInf (Fin b) = (if b \<ge> 0 then NegInf else PosInf)"
| "jsdiv _ _ = NaN"

text \<open>The remainder \<^verbatim>\<open>%\<close> truncates towards zero and takes the sign of the dividend;
  the remainder of two doubles is a double, so nothing is rounded.\<close>

fun jsrem :: "jsnum \<Rightarrow> jsnum \<Rightarrow> jsnum" where
  "jsrem (Fin a) (Fin b) =
     (if b = 0 then NaN
      else Fin (a - b * of_int (if a / b \<ge> 0 then \<lfloor>a / b\<rfloor> else \<lceil>a / b\<rceil>)))"
| "jsrem NaN _ = NaN"
| "jsrem _ NaN = NaN"
| "jsrem (Fin a) _ = Fin a"
| "jsrem _ _ = NaN"

fun jslt :: "jsnum \<Rightarrow> jsnum \<Rightarrow> bool" where
  "jslt (Fin a) (Fin b) = (a < b)"
| "jslt NaN _ = False"
| "jslt _ NaN = False"
| "jslt NegInf b = (b \<noteq> NegInf)"
| "jslt a PosInf = (a \<noteq> PosInf)"
| "jslt _ _ = False"

definition jsgt :: "jsnum \<Rightarrow> jsnum \<Rightarrow> bool" where
  "jsgt a b = jslt b a"

text \<open>\<^verbatim>\<open>a >= b\<close> is false when either side is NaN.\<close>

definition jsge :: "jsnum \<Rightarrow> jsnum \<Rightarrow> bool" where
  "jsge a b = (a \<noteq> NaN \<and> b \<noteq> NaN \<and> \<not> jslt a b)"

text \<open>\<^verbatim>\<open>a === b\<close> on numbers: NaN equals nothing.\<close>

definition jseq :: "jsnum \<Rightarrow> jsnum \<Rightarrow> bool" where
  "jseq a b = (a \<noteq> NaN \<and> a = b)"

definition Math_floor :: "jsnum \<Rightarrow> jsnum" where
  "Math_floor x = (case x of Fin a \<Rightarrow> Fin (of_int \<lfloor>a\<rfloor>) | _ \<Rightarrow> x)"

definition Math_ceil :: "jsnum \<Rightarrow> jsnum" where
  "Math_ceil x = (case x of Fin a \<Rightarrow> Fin (of_int \<lceil>a\<rceil>) | _ \<Rightarrow> x)"

text \<open>\<^verbatim>\<open>Math.round\<close> rounds a tie upwards.\<close>

definition Math_round :: "jsnum \<Rightarrow> jsnum" where
  "Math_round x = (case x of Fin a \<Rightarrow> Fin (of_int \<lfloor>a + 1 / 2\<rfloor>) | _ \<Rightarrow> x)"

text \<open>\<^verbatim>\<open>x.toFixed(3)\<close> is a string; the model keeps the number the string denotes,
  the multiple of a thousandth nearest to the double (the larger one at a tie), which
  is a decimal and need not be a double, and leaves an infinity or NaN, printed by name,
  as it is.\<close>

definition toFixed3 :: "jsnum \<Rightarrow> jsnum" where
  "toFixed3 x = (case x of Fin a \<Rightarrow> Fin (of_int \<lfloor>a * 1000 + 1 / 2\<rfloor> / 1000) | _ \<Rightarrow> x)"

section \<open>The attention model\<close>

text \<open>The three \<^verbatim>\<open>return\<close> expressions of \<^verbatim>\<open>getAttentionScore\<close>, as
  functions of \<open>normalizedPos\<close>.\<close>

definition attention_first :: "jsnum \<Rightarrow> jsnum" where
  "attention_first normalizedPos = jssub (lit (95 / 100)) (jsmul normalizedPos (lit (5 / 10)))"

definition attention_last :: "jsnum \<Rightarrow> jsnum" where
  "attention_last normalizedPos =
     jsadd (lit (7 / 10)) (jsmul (jssub normalizedPos (lit (85 / 100))) (lit (15 / 10)))"

definition attention_middle :: "jsnum \<Rightarrow> jsnum" where
  "attention_middle normalizedPos =
     (let midPoint = lit (5 / 10);
          distFromMid = jsabs (jssub normalizedPos midPoint)
      in jsadd (lit (55 / 100)) (jsmul distFromMid (lit (3 / 10))))"

definition getAttentionScore :: "jsnum \<Rightarrow> jsnum \<Rightarrow> jsnum" where
  "getAttentionScore positionInChunk chunkSize =
     (let normalizedPos = jsdiv positionInChunk chunkSize
      in if jslt normalizedPos (lit (15 / 100)) then attention_first normalizedPos
         else if jsgt normalizedPos (lit (85 / 100)) then attention_last normalizedPos
         else attention_middle normalizedPos)"

text \<open>Two scores are within a tolerance of each other when both are finite and differ
  by no more than it.\<close>

definition within_tolerance :: "rat \<Rightarrow> jsnum \<Rightarrow> jsnum \<Rightarrow> bool" where
  "within_tolerance eps a b =
     (case a of Fin x \<Rightarrow> (case b of Fin y \<Rightarrow> \<bar>x - y\<bar> \<le> eps | _ \<Rightarrow> False) | _ \<Rightarrow> False)"

section \<open>The chunker\<close>

record chunk =
  chunk_tokens :: "jsstring list"
  chunk_text :: jsstring
  startToken :: nat
  endToken :: nat
  tokenCount :: nat

text \<open>The variables of \<^verbatim>\<open>chunkContent\<close> that its loop changes (\<open>charIndex\<close>
  is never read or written again).\<close>

record chunker_state =
  chunks_acc :: "chunk list"
  currentChunk :: "jsstring list"
  currentText :: jsstring
  tokenIndex :: nat

text \<open>
  The chunk size is an integer-valued Number: the page offers 90, 100, 120, 256 and
  512, and nothing in the code restricts it, so the model takes any integer.

  The \<^verbatim>\<open>for\<close> loop visits the tokens in order; the recursion is over the tokens
  still to visit, so that \<^verbatim>\<open>i === tokens.length - 1\<close> holds exactly when none is
  left after the current one. \<open>endToken\<close> is computed after the push, when
  \<open>currentChunk\<close> has at least one token, so the subtraction of 1 is exact on
  \<open>nat\<close>.
\<close>

fun chunk_loop :: "int \<Rightarrow> jsstring list \<Rightarrow> chunker_state \<Rightarrow> chunk list" where
  "chunk_loop chunkSize [] st = chunks_acc st"
| "chunk_loop chunkSize (t # ts) st =
     (let cc = currentChunk st @ [t];
          ct = currentText st @ t
      in if int (length cc) \<ge> chunkSize \<or> ts = []
         then chunk_loop chunkSize ts
                \<lparr>chunks_acc = chunks_acc st @
                   [\<lparr>chunk_tokens = cc, chunk_text = ct, startToken = tokenIndex st,
                     endToken = tokenIndex st + length cc - 1, tokenCount = length cc\<rparr>],
                 currentChunk = [], currentText = [],
                 tokenIndex = tokenIndex st + length cc\<rparr>
         else chunk_loop chunkSize ts (st\<lparr>currentChunk := cc, currentText := ct\<rparr>))"

definition chunkContent :: "jsstring \<Rightarrow> jsstring list \<Rightarrow> int \<Rightarrow> chunk list" where
  "chunkContent content toks chunkSize =
     chunk_loop chunkSize toks
       \<lparr>chunks_acc = [], currentChunk = [], currentText = [], tokenIndex = 0\<rparr>"

text \<open>
  The partition that the specification describes, written down from its words and not
  from the loop: windows of \<open>n\<close> consecutive tokens taken from the left, the last
  window holding what is left, numbered from the token index \<open>k\<close>.
\<close>

function partition_chunks :: "nat \<Rightarrow> nat \<Rightarrow> jsstring list \<Rightarrow> chunk list" where
  "partition_chunks n k toks =
     (if toks = [] \<or> n = 0 then []
      else \<lparr>chunk_tokens = take n toks, chunk_text = concat (take n toks), startToken = k,
            endToken = k + length (take n toks) - 1, tokenCount = length (take n toks)\<rparr>
           # partition_chunks n (k + n) (drop n toks))"
  by pat_completeness auto
termination
  by (relation "measure (\<lambda>(n, k, toks). length toks)") auto

section \<open>Splitting on a regular expression\<close>

text \<open>
  \<^verbatim>\<open>String.prototype.split\<close> with a regular expression that matches no empty
  string. The separator is given by the length of its match at the head of the rest
  (0 for no match). The text is scanned from the left; the piece read so far is closed
  at the first match, and the scan goes on after the match; the last piece is closed at
  the end of the text, so the empty text gives one empty piece.
\<close>

function split_loop :: "(jsstring \<Rightarrow> nat) \<Rightarrow> jsstring \<Rightarrow> jsstring \<Rightarrow> jsstring list" where
  "split_loop sep piece rest =
     (if rest = [] then [piece]
      else if sep rest = 0 then split_loop sep (piece @ [hd rest]) (tl rest)
      else piece # split_loop sep [] (drop (sep rest) rest))"
  by pat_completeness auto
termination
  by (relation "measure (\<lambda>(sep, piece, rest). length rest)") auto

definition newline :: jschar where
  "newline = 10"

text \<open>\<^verbatim>\<open>/\n\n+/\<close>: at least two newlines, then as many as follow.\<close>

definition sep_newlines :: "jsstring \<Rightarrow> nat" where
  "sep_newlines s =
     (case s of
        a # b # r \<Rightarrow>
          if a = newline \<and> b = newline then 2 + length (takeWhile (\<lambda>c. c = newline) r) else 0
      | _ \<Rightarrow> 0)"

text \<open>\<^verbatim>\<open>/\s+/\<close>.\<close>

definition sep_spaces :: "jsstring \<Rightarrow> nat" where
  "sep_spaces s = length (takeWhile is_space s)"

definition splitParagraphs :: "jsstring \<Rightarrow> jsstring list" where
  "splitParagraphs content =
     filter (\<lambda>p. length (trim p) > 0) (split_loop sep_newlines [] content)"

text \<open>Whether two newlines stand next to each other in a text.\<close>

fun has_double_newline :: "jsstring \<Rightarrow> bool" where
  "has_double_newline (a # b # r) = ((a = newline \<and> b = newline) \<or> has_double_newline (b # r))"
| "has_double_newline _ = False"

text \<open>The pieces of a split put back around their separators, in order.\<close>

fun weave :: "'a list list \<Rightarrow> 'a list list \<Rightarrow> 'a list" where
  "weave [] seps = []"
| "weave (p # ps) [] = p @ weave ps []"
| "weave (p # ps) (s # seps) = p @ s @ weave ps seps"

section \<open>The entity extractor\<close>

record entity =
  entity_text :: jsstring
  position :: nat

text \<open>
  The first expression is
  \<^verbatim>\<open>/(?<=[.!?]\s+[^A-Z]*|^[^A-Z]*)([A-Z][a-zA-Z]+(?:\s+[A-Z][a-zA-Z]+)*)/g\<close>.
  Its lookbehind holds at an index when the text before the index ends with a match of
  \<^verbatim>\<open>[.!?]\s+[^A-Z]*\<close>, or is as a whole a match of \<^verbatim>\<open>[^A-Z]*\<close>.
  A white space character is no capital, so a text matches \<^verbatim>\<open>[.!?]\s+[^A-Z]*\<close>
  exactly when it is one of the three marks, one white space character, and then no
  capital.
\<close>

definition no_capital :: "jsstring \<Rightarrow> bool" where
  "no_capital s = list_all (\<lambda>c. \<not> is_upper c) s"

definition is_sentence_end :: "jschar \<Rightarrow> bool" where
  "is_sentence_end c \<longleftrightarrow> c \<in> set (js ''.!?'')"

definition after_boundary :: "jsstring \<Rightarrow> bool" where
  "after_boundary s =
     (case s of p # w # r \<Rightarrow> is_sentence_end p \<and> is_space w \<and> no_capital r | _ \<Rightarrow> False)"

text \<open>All the suffixes of a text, the text itself and the empty one among them.\<close>

fun tails :: "'a list \<Rightarrow> 'a list list" where
  "tails [] = [[]]"
| "tails (x # xs) = (x # xs) # tails xs"

definition lookbehind :: "jsstring \<Rightarrow> bool" where
  "lookbehind pre = (list_ex after_boundary (tails pre) \<or> no_capital pre)"

text \<open>\<^verbatim>\<open>[A-Z][a-zA-Z]+\<close> at the head of a text.\<close>

definition capital_word :: pattern where
  "capital_word s =
     (case s of [] \<Rightarrow> None
      | x # r \<Rightarrow> if is_upper x \<and> takeWhile is_alpha r \<noteq> []
                 then Some (x # takeWhile is_alpha r) else None)"

text \<open>
  \<^verbatim>\<open>(?:\s+[A-Z][a-zA-Z]+)*\<close> at the head of a text: the greedy star takes a
  further white space run and capitalized word as long as there is one. Nothing follows
  the star in the expression, so nothing makes it give a repetition back.
\<close>

function more_words :: "jsstring \<Rightarrow> jsstring" where
  "more_words s =
     (let ws = takeWhile is_space s
      in if ws = [] then []
         else case capital_word (drop (length ws) s) of
           None \<Rightarrow> []
         | Some w \<Rightarrow> ws @ w @ more_words (drop (length ws + length w) s))"
  by pat_completeness auto
termination
  by (relation "measure length") (auto simp: neq_Nil_conv takeWhile_eq_Nil_iff)

definition capital_phrase :: pattern where
  "capital_phrase s =
     (case capital_word s of None \<Rightarrow> None
      | Some w \<Rightarrow> Some (w @ more_words (drop (length w) s)))"

text \<open>
  \<^verbatim>\<open>matchAll\<close> with the \<^verbatim>\<open>g\<close> flag: the leftmost index from \<open>i\<close> on at which
  the expression matches gives the next match, and the search goes on at the end of
  that match (one further after an empty match). A match is the captured text and
  \<^verbatim>\<open>match.index\<close>.
\<close>

function capital_matches :: "jsstring \<Rightarrow> nat \<Rightarrow> (jsstring \<times> nat) list" where
  "capital_matches content i =
     (if i \<ge> length content then []
      else if lookbehind (take i content) then
        (case capital_phrase (drop i content) of
           Some m \<Rightarrow> (m, i) # capital_matches content (if m = [] then i + 1 else i + length m)
         | None \<Rightarrow> capital_matches content (i + 1))
      else capital_matches content (i + 1))"
  by pat_completeness auto
termination
  by (relation "measure (\<lambda>(content, i). length content - i)") (auto simp: neq_Nil_conv)

text \<open>\<^verbatim>\<open>\b\<close> between the text before an index and the text from it on.\<close>

definition word_boundary :: "jsstring \<Rightarrow> jsstring \<Rightarrow> bool" where
  "word_boundary pre s =
     ((pre \<noteq> [] \<and> is_word (last pre)) \<noteq> (s \<noteq> [] \<and> is_word (hd s)))"

text \<open>
  \<^verbatim>\<open>/\b([A-Z]{2,})\b/g\<close> at an index: after the boundary the run of capitals is
  taken whole, and given back one capital at a time, down to two, until a boundary
  follows what is kept.
\<close>

definition acronym_at :: "jsstring \<Rightarrow> jsstring \<Rightarrow> jsstring option" where
  "acronym_at pre s =
     (if word_boundary pre s then
        (let n = length (takeWhile is_upper s)
         in case find (\<lambda>k. word_boundary (pre @ take k s) (drop k s)) (rev [2..<n + 1]) of
              None \<Rightarrow> None
            | Some k \<Rightarrow> Some (take k s))
      else None)"

function acronym_matches :: "jsstring \<Rightarrow> nat \<Rightarrow> (jsstring \<times> nat) list" where
  "acronym_matches content i =
     (if i \<ge> length content then []
      else case acronym_at (take i content) (drop i content) of
        Some m \<Rightarrow> (m, i) # acronym_matches content (if m = [] then i + 1 else i + length m)
      | None \<Rightarrow> acronym_matches content (i + 1))"
  by pat_completeness auto
termination
  by (relation "measure (\<lambda>(content, i). length content - i)") (auto simp: neq_Nil_conv)

definition to_entity :: "jsstring \<times> nat \<Rightarrow> entity" where
  "to_entity m = \<lparr>entity_text = fst m, position = snd m\<rparr>"

text \<open>The entities of the first pass, the filter \<^verbatim>\<open>match[1].length > 2\<close> applied.\<close>

definition capital_entities :: "jsstring \<Rightarrow> entity list" where
  "capital_entities content =
     map to_entity (filter (\<lambda>m. length (fst m) > 2) (capital_matches content 0))"

definition extractEntities :: "jsstring \<Rightarrow> entity list" where
  "extractEntities content =
     capital_entities content @ map to_entity (acronym_matches content 0)"

section \<open>The analysis\<close>

record paragraph_record =
  para_index :: nat
  para_text :: jsstring
  para_tokenCount :: nat
  exceedsChunk :: bool
  chunksRequired :: jsnum

record scored_entity = entity +
  tokenPosition :: nat
  chunkIndex :: jsnum
  positionInChunk :: jsnum
  attentionScore :: jsnum
  isLowAttention :: bool

datatype efficiency_label = Optimal | Acceptable | Verbose

record analysis_result =
  gptTokens :: nat
  claudeTokens :: nat
  geminiTokens :: nat
  variance :: jsnum
  paragraphs :: "paragraph_record list"
  chunks :: "chunk list"
  entities :: "scored_entity list"
  wordCount :: nat
  wordsPerToken :: jsnum
  efficiency :: efficiency_label

definition num :: "int \<Rightarrow> jsnum" where
  "num k = Fin (of_int k)"

definition paragraphAnalysis :: "int \<Rightarrow> nat \<times> jsstring \<Rightarrow> paragraph_record" where
  "paragraphAnalysis chunkSize ip =
     (let idx = fst ip; p = snd ip;
          pTokens = approximateTokenize p
      in \<lparr>para_index = idx, para_text = p, para_tokenCount = length pTokens,
          exceedsChunk = jsgt (of_count (length pTokens)) (num chunkSize),
          chunksRequired = Math_ceil (jsdiv (of_count (length pTokens)) (num chunkSize))\<rparr>)"

text \<open>
  The loop that maps an entity's character offset to a token index. It leaves at the
  first token before which \<open>charCount\<close> has reached the offset; when it runs through
  all the tokens, \<open>tokenPosition\<close> keeps its initial value 0.
\<close>

fun token_position_loop :: "jsstring list \<Rightarrow> nat \<Rightarrow> nat \<Rightarrow> nat \<Rightarrow> nat" where
  "token_position_loop [] i charCount pos = 0"
| "token_position_loop (t # ts) i charCount pos =
     (if charCount \<ge> pos then i else token_position_loop ts (i + 1) (charCount + length t) pos)"

definition entityAnalysis :: "jsstring list \<Rightarrow> int \<Rightarrow> entity \<Rightarrow> scored_entity" where
  "entityAnalysis gptToks chunkSize e =
     (let tp = token_position_loop gptToks 0 0 (position e);
          ci = Math_floor (jsdiv (of_count tp) (num chunkSize));
          pic = jsrem (of_count tp) (num chunkSize);
          attention = getAttentionScore pic (num chunkSize)
      in \<lparr>entity_text = entity_text e, position = position e, tokenPosition = tp,
          chunkIndex = ci, positionInChunk = pic, attentionScore = attention,
          isLowAttention = jslt attention (lit (65 / 100))\<rparr>)"

text \<open>\<^verbatim>\<open>content.split(/\s+/).filter(w => w.length > 0).length\<close>.\<close>

definition count_words :: "jsstring \<Rightarrow> nat" where
  "count_words content = length (filter (\<lambda>w. length w > 0) (split_loop sep_spaces [] content))"

text \<open>The memoised computation \<open>analysis\<close> of the component, as a function of the
  state it depends on; \<open>None\<close> is its \<^verbatim>\<open>null\<close>.\<close>

definition analysis :: "jsstring \<Rightarrow> int \<Rightarrow> analysis_result option" where
  "analysis content chunkSize =
     (if trim content = [] then None
      else
        (let gptToks = approximateTokenize content;
             claudeToks = approximateClaudeTokenize content;
             geminiToks = approximateGeminiTokenize content;
             paras = splitParagraphs content;
             wc = count_words content;
             wpt = jsdiv (of_count wc) (of_count (length gptToks));
             hi = max (length gptToks) (max (length claudeToks) (length geminiToks));
             lo = min (length gptToks) (min (length claudeToks) (length geminiToks))
         in Some
           \<lparr>gptTokens = length gptToks,
            claudeTokens = length claudeToks,
            geminiTokens = length geminiToks,
            variance =
              Math_round
                (jsmul (jsdiv (jssub (of_count hi) (of_count lo)) (of_count (length gptToks)))
                   (Fin 100)),
            paragraphs = map (paragraphAnalysis chunkSize) (enumerate 0 paras),
            chunks = chunkContent content gptToks chunkSize,
            entities = map (entityAnalysis gptToks chunkSize) (extractEntities content),
            wordCount = wc,
            wordsPerToken = toFixed3 wpt,
            efficiency =
              (if jsge wpt (lit (75 / 100)) then Optimal
               else if jsge wpt (lit (65 / 100)) then Acceptable else Verbose)\<rparr>))"

section \<open>The hints\<close>

datatype hint_type = Warning | Critical | Optimize | Info

text \<open>A message is a template string; the model keeps which template it is and the
  values put into it.\<close>

datatype hint_message =
    EntitiesAfterChunk1 nat
  | LowAttentionEntities nat "jsstring list"
  | LongParagraphs nat int
  | LowEfficiency jsnum
  | SpansChunks nat
  | ChunkSizeAdvice

record hint =
  hint_type :: hint_type
  message :: hint_message

definition hints :: "analysis_result option \<Rightarrow> int \<Rightarrow> hint list" where
  "hints a chunkSize =
     (case a of
        None \<Rightarrow> []
      | Some r \<Rightarrow>
          (let firstChunkEntities = filter (\<lambda>e. jseq (chunkIndex e) (Fin 0)) (entities r);
               laterEntities = filter (\<lambda>e. jsgt (chunkIndex e) (Fin 0)) (entities r)
           in if length laterEntities > length firstChunkEntities
              then [\<lparr>hint_type = Warning, message = EntitiesAfterChunk1 (length laterEntities)\<rparr>]
              else []) @
          (let lowAttentionEntities = filter isLowAttention (entities r)
           in if length lowAttentionEntities > 0
              then [\<lparr>hint_type = Critical,
                     message = LowAttentionEntities (length lowAttentionEntities)
                                 (map entity_text (take 3 lowAttentionEntities))\<rparr>]
              else []) @
          (let longParagraphs = filter exceedsChunk (paragraphs r)
           in if length longParagraphs > 0
              then [\<lparr>hint_type = Warning,
                     message = LongParagraphs (length longParagraphs) chunkSize\<rparr>]
              else []) @
          (if efficiency r = Verbose
           then [\<lparr>hint_type = Optimize, message = LowEfficiency (wordsPerToken r)\<rparr>]
           else []) @
          (if length (chunks r) > 5
           then [\<lparr>hint_type = Info, message = SpansChunks (length (chunks r))\<rparr>]
           else []) @
          (if chunkSize > 120
           then [\<lparr>hint_type = Optimize, message = ChunkSizeAdvice\<rparr>]
           else []))"

section \<open>Properties of the rounding\<close>

declare scale_up.simps [simp del] scale_down.simps [simp del]

lemma scale_up_bounds: "1 \<le> x \<Longrightarrow> 0 < scale_up x \<and> scale_up x \<le> x \<and> x < 2 * scale_up x"
proof (induction x rule: scale_up.induct)
  case (1 x)
  show ?case
  proof (cases "2 \<le> x")
    case True
    then have "1 \<le> x / 2" by simp
    from "1.IH" [OF True this] True show ?thesis
      by (simp add: scale_up.simps [of x])
  next
    case False
    with "1.prems" show ?thesis
      by (simp add: scale_up.simps [of x])
  qed
qed

lemma scale_down_bounds:
  "0 < x \<Longrightarrow> x < 1 \<Longrightarrow> 0 < scale_down x \<and> scale_down x \<le> x \<and> x < 2 * scale_down x"
proof (induction x rule: scale_down.induct)
  case (1 x)
  show ?case
  proof (cases "2 * x < 1")
    case True
    from "1.IH" [of] "1.prems" True show ?thesis
      by (simp add: scale_down.simps [of x])
  next
    case False
    then have "scale_down (2 * x) = 1"
      by (simp add: scale_down.simps [of "2 * x"])
    with "1.prems" False show ?thesis
      by (simp add: scale_down.simps [of x])
  qed
qed

lemma binade_bounds: "0 < x \<Longrightarrow> 0 < binade x \<and> binade x \<le> x \<and> x < 2 * binade x"
  using scale_up_bounds [of x] scale_down_bounds [of x]
  by (cases "1 \<le> x") (simp_all add: binade_def)

lemma round_even_error: "\<bar>of_int (round_even y) - y\<bar> \<le> 1 / 2"
proof -
  have "of_int \<lfloor>y\<rfloor> \<le> y" "y < of_int \<lfloor>y\<rfloor> + 1"
    using floor_correct [of y] by simp_all
  then show ?thesis
    by (auto simp: round_even_def Let_def)
qed

lemma fl_error: "\<bar>fl x - x\<bar> \<le> \<bar>x\<bar> / 2 ^ 53"
proof (cases "x = 0")
  case True
  then show ?thesis by (simp add: fl_def)
next
  case False
  define q where "q = binade \<bar>x\<bar> / 2 ^ 52"
  have b: "0 < binade \<bar>x\<bar>" "binade \<bar>x\<bar> \<le> \<bar>x\<bar>"
    using binade_bounds [of "\<bar>x\<bar>"] False by simp_all
  then have q: "0 < q"
    by (simp add: q_def)
  have "fl x = of_int (round_even (x / q)) * q"
    using False unfolding fl_def Let_def q_def by simp
  then have "fl x - x = (of_int (round_even (x / q)) - x / q) * q"
    using q by (simp add: algebra_simps)
  then have "\<bar>fl x - x\<bar> = \<bar>of_int (round_even (x / q)) - x / q\<bar> * q"
    using q by (simp add: abs_mult)
  also have "\<dots> \<le> (1 / 2) * q"
    using round_even_error [of "x / q"] q by (intro mult_right_mono) simp_all
  also have "\<dots> = binade \<bar>x\<bar> / 2 ^ 53"
    by (simp add: q_def)
  also have "\<dots> \<le> \<bar>x\<bar> / 2 ^ 53"
    using b by (simp add: divide_right_mono)
  finally show ?thesis .
qed

section \<open>Properties of the tokenizers\<close>

declare gpt_loop.simps [simp del] claude_loop.simps [simp del] gemini_loop.simps [simp del]
declare split_loop.simps [simp del] more_words.simps [simp del]
declare capital_matches.simps [simp del] acronym_matches.simps [simp del]

subsection \<open>Matches are non-empty prefixes\<close>

lemma take_takeWhile_split: "\<exists>r. xs = take n (takeWhile c xs) @ r"
proof -
  have "xs = (take n (takeWhile c xs) @ drop n (takeWhile c xs)) @ dropWhile c xs"
    by simp
  then show ?thesis
    by (metis append.assoc)
qed

lemma takeWhile_split: "\<exists>r. xs = takeWhile c xs @ r"
  by (metis takeWhile_dropWhile_id)

lemma sound_pat_run: "sound (pat_run c)"
  unfolding sound_def pat_run_def
  by (auto split: list.splits if_splits intro: takeWhile_split)

lemma sound_pat_run_upto: "sound (pat_run_upto n c)"
  unfolding sound_def pat_run_upto_def
  by (auto split: list.splits if_splits intro: take_takeWhile_split)

lemma sound_pat_one: "sound (pat_one c)"
  unfolding sound_def pat_one_def
  by (auto split: list.splits if_splits)

lemma sound_pat_capitalized: "sound pat_capitalized"
  unfolding sound_def pat_capitalized_def
  by (auto split: list.splits if_splits intro: takeWhile_split)

lemma sound_pat_capitalized_upto5: "sound pat_capitalized_upto5"
  unfolding sound_def pat_capitalized_upto5_def
  by (auto split: list.splits if_splits intro: take_takeWhile_split)

lemma sound_pat_sentencepiece: "sound pat_sentencepiece"
proof -
  have inner: "\<And>s w. pat_run_upto 6 is_alpha s = Some w \<Longrightarrow> w \<noteq> [] \<and> (\<exists>r. s = w @ r)"
    using sound_pat_run_upto [of 6 is_alpha] by (simp add: sound_def)
  show ?thesis
    unfolding sound_def pat_sentencepiece_def
    by (auto split: list.splits if_splits option.splits dest: inner)
qed

lemma first_match_sound:
  "list_all sound ps \<Longrightarrow> first_match ps s = Some w \<Longrightarrow> w \<noteq> [] \<and> (\<exists>r. s = w @ r)"
  by (induction ps) (auto simp: sound_def split: option.splits)

lemma gpt_patterns_sound: "list_all sound gpt_patterns"
  by (simp add: gpt_patterns_def sound_pat_run sound_pat_one sound_pat_capitalized)

lemma claude_patterns_sound: "list_all sound claude_patterns"
  by (simp add: claude_patterns_def sound_pat_run sound_pat_one sound_pat_capitalized_upto5
      sound_pat_run_upto)

lemma gemini_patterns_sound: "list_all sound gemini_patterns"
  by (simp add: gemini_patterns_def sound_pat_run sound_pat_one sound_pat_sentencepiece)

subsection \<open>What a match pushes\<close>

lemma concat_slices4: "concat (slices4 w) = w"
  by (induction w rule: slices4.induct) simp_all

lemma length_slices4: "length (slices4 w) \<le> length w"
proof (induction w rule: slices4.induct)
  case 1
  show ?case by simp
next
  case (2 x xs)
  have "length (drop 4 (x # xs)) \<le> length xs" by simp
  with 2 show ?case by simp
qed

lemma gpt_emit_ok: "emit_ok gpt_emit"
proof -
  have "slices4 w \<noteq> []" if "w \<noteq> []" for w
    using that by (cases w) simp_all
  moreover have "length w \<ge> 1" if "w \<noteq> []" for w :: jsstring
    using that by (cases w) simp_all
  ultimately show ?thesis
    by (auto simp: emit_ok_def gpt_emit_def concat_slices4 length_slices4)
qed

lemma single_emit_ok: "emit_ok (\<lambda>word. [word])"
  by (auto simp: emit_ok_def Suc_le_eq)

subsection \<open>One iteration\<close>

lemma tokenize_step_props:
  assumes ps: "list_all sound ps" and em: "emit_ok emit" and ne: "remaining \<noteq> []"
    and st: "tokenize_step ps emit remaining = (out, remaining')"
  shows "concat out @ remaining' = remaining \<and> length remaining' < length remaining \<and>
         out \<noteq> [] \<and> length out + length remaining' \<le> length remaining"
proof (cases "first_match ps remaining")
  case None
  then have "out = [take 1 remaining]" "remaining' = drop 1 remaining"
    using st by (simp_all add: tokenize_step_def)
  with ne show ?thesis
    by (cases remaining) simp_all
next
  case (Some w)
  then obtain r where w: "w \<noteq> []" and r: "remaining = w @ r"
    using first_match_sound [OF ps] by blast
  from Some st have o: "out = emit w" and r': "remaining' = drop (length w) remaining"
    by (simp_all add: tokenize_step_def)
  from em w have e: "concat (emit w) = w" "emit w \<noteq> []" "length (emit w) \<le> length w"
    by (simp_all add: emit_ok_def)
  from w have "0 < length w" by simp
  with o r' r e show ?thesis
    by simp
qed

subsection \<open>The loops\<close>

lemma gpt_loop_concat: "concat (gpt_loop remaining tokens) = concat tokens @ remaining"
proof (induction remaining tokens rule: gpt_loop.induct)
  case (1 remaining tokens)
  show ?case
  proof (cases "remaining = []")
    case True
    then show ?thesis by (simp add: gpt_loop.simps [of "[]"])
  next
    case False
    obtain out remaining' where st: "tokenize_step gpt_patterns gpt_emit remaining = (out, remaining')"
      by (cases "tokenize_step gpt_patterns gpt_emit remaining")
    have "concat out @ remaining' = remaining"
      using tokenize_step_props [OF gpt_patterns_sound gpt_emit_ok False st] by simp
    moreover have "concat (gpt_loop remaining' (tokens @ out)) = concat (tokens @ out) @ remaining'"
      using "1.IH" [OF False st [symmetric]] .
    ultimately show ?thesis
      using False st by (simp add: gpt_loop.simps [of remaining])
  qed
qed

lemma gpt_loop_length:
  "length (gpt_loop remaining tokens) \<le> length tokens + length remaining
   \<and> (remaining \<noteq> [] \<longrightarrow> length tokens < length (gpt_loop remaining tokens))
   \<and> length tokens \<le> length (gpt_loop remaining tokens)"
proof (induction remaining tokens rule: gpt_loop.induct)
  case (1 remaining tokens)
  show ?case
  proof (cases "remaining = []")
    case True
    then show ?thesis by (simp add: gpt_loop.simps [of "[]"])
  next
    case False
    obtain out remaining' where st: "tokenize_step gpt_patterns gpt_emit remaining = (out, remaining')"
      by (cases "tokenize_step gpt_patterns gpt_emit remaining")
    note p = tokenize_step_props [OF gpt_patterns_sound gpt_emit_ok False st]
    have ih: "length (gpt_loop remaining' (tokens @ out)) \<le> length (tokens @ out) + length remaining'
       \<and> length (tokens @ out) \<le> length (gpt_loop remaining' (tokens @ out))"
      using "1.IH" [OF False st [symmetric]] by simp
    have eq: "gpt_loop remaining tokens = gpt_loop remaining' (tokens @ out)"
      using False st by (simp add: gpt_loop.simps [of remaining])
    from p have "0 < length out" by simp
    with ih p show ?thesis
      unfolding eq by (simp del: length_greater_0_conv)
  qed
qed

lemma claude_loop_concat: "concat (claude_loop remaining tokens) = concat tokens @ remaining"
proof (induction remaining tokens rule: claude_loop.induct)
  case (1 remaining tokens)
  show ?case
  proof (cases "remaining = []")
    case True
    then show ?thesis by (simp add: claude_loop.simps [of "[]"])
  next
    case False
    obtain out remaining' where st: "tokenize_step claude_patterns (\<lambda>word. [word]) remaining = (out, remaining')"
      by (cases "tokenize_step claude_patterns (\<lambda>word. [word]) remaining")
    have "concat out @ remaining' = remaining"
      using tokenize_step_props [OF claude_patterns_sound single_emit_ok False st] by simp
    moreover have "concat (claude_loop remaining' (tokens @ out)) = concat (tokens @ out) @ remaining'"
      using "1.IH" [OF False st [symmetric]] .
    ultimately show ?thesis
      using False st by (simp add: claude_loop.simps [of remaining])
  qed
qed

lemma claude_loop_length:
  "length (claude_loop remaining tokens) \<le> length tokens + length remaining
   \<and> (remaining \<noteq> [] \<longrightarrow> length tokens < length (claude_loop remaining tokens))
   \<and> length tokens \<le> length (claude_loop remaining tokens)"
proof (induction remaining tokens rule: claude_loop.induct)
  case (1 remaining tokens)
  show ?case
  proof (cases "remaining = []")
    case True
    then show ?thesis by (simp add: claude_loop.simps [of "[]"])
  next
    case False
    obtain out remaining' where st: "tokenize_step claude_patterns (\<lambda>word. [word]) remaining = (out, remaining')"
      by (cases "tokenize_step claude_patterns (\<lambda>word. [word]) remaining")
    note p = tokenize_step_props [OF claude_patterns_sound single_emit_ok False st]
    have ih: "length (claude_loop remaining' (tokens @ out)) \<le> length (tokens @ out) + length remaining'
       \<and> length (tokens @ out) \<le> length (claude_loop remaining' (tokens @ out))"
      using "1.IH" [OF False st [symmetric]] by simp
    have eq: "claude_loop remaining tokens = claude_loop remaining' (tokens @ out)"
      using False st by (simp add: claude_loop.simps [of remaining])
    from p have "0 < length out" by simp
    with ih p show ?thesis
      unfolding eq by (simp del: length_greater_0_conv)
  qed
qed

lemma gemini_loop_concat: "concat (gemini_loop remaining tokens) = concat tokens @ remaining"
proof (induction remaining tokens rule: gemini_loop.induct)
  case (1 remaining tokens)
  show ?case
  proof (cases "remaining = []")
    case True
    then show ?thesis by (simp add: gemini_loop.simps [of "[]"])
  next
    case False
    obtain out remaining' where st: "tokenize_step gemini_patterns (\<lambda>word. [word]) remaining = (out, remaining')"
      by (cases "tokenize_step gemini_patterns (\<lambda>word. [word]) remaining")
    have "concat out @ remaining' = remaining"
      using tokenize_step_props [OF gemini_patterns_sound single_emit_ok False st] by simp
    moreover have "concat (gemini_loop remaining' (tokens @ out)) = concat (tokens @ out) @ remaining'"
      using "1.IH" [OF False st [symmetric]] .
    ultimately show ?thesis
      using False st by (simp add: gemini_loop.simps [of remaining])
  qed
qed

lemma gemini_loop_length:
  "length (gemini_loop remaining tokens) \<le> length tokens + length remaining
   \<and> (remaining \<noteq> [] \<longrightarrow> length tokens < length (gemini_loop remaining tokens))
   \<and> length tokens \<le> length (gemini_loop remaining tokens)"
proof (induction remaining tokens rule: gemini_loop.induct)
  case (1 remaining tokens)
  show ?case
  proof (cases "remaining = []")
    case True
    then show ?thesis by (simp add: gemini_loop.simps [of "[]"])
  next
    case False
    obtain out remaining' where st: "tokenize_step gemini_patterns (\<lambda>word. [word]) remaining = (out, remaining')"
      by (cases "tokenize_step gemini_patterns (\<lambda>word. [word]) remaining")
    note p = tokenize_step_props [OF gemini_patterns_sound single_emit_ok False st]
    have ih: "length (gemini_loop remaining' (tokens @ out)) \<le> length (tokens @ out) + length remaining'
       \<and> length (tokens @ out) \<le> length (gemini_loop remaining' (tokens @ out))"
      using "1.IH" [OF False st [symmetric]] by simp
    have eq: "gemini_loop remaining tokens = gemini_loop remaining' (tokens @ out)"
      using False st by (simp add: gemini_loop.simps [of remaining])
    from p have "0 < length out" by simp
    with ih p show ?thesis
      unfolding eq by (simp del: length_greater_0_conv)
  qed
qed


subsection \<open>The tokenizers\<close>

lemma approximateTokenize_length: "length (approximateTokenize content) \<le> length content"
  using gpt_loop_length [of content "[]"] by (simp add: approximateTokenize_def)

lemma approximateTokenize_nonempty: "content \<noteq> [] \<Longrightarrow> approximateTokenize content \<noteq> []"
  using gpt_loop_length [of content "[]"] by (auto simp: approximateTokenize_def)

lemma approximateClaudeTokenize_nonempty:
  "content \<noteq> [] \<Longrightarrow> approximateClaudeTokenize content \<noteq> []"
  using claude_loop_length [of content "[]"] by (auto simp: approximateClaudeTokenize_def)

lemma approximateGeminiTokenize_nonempty:
  "content \<noteq> [] \<Longrightarrow> approximateGeminiTokenize content \<noteq> []"
  using gemini_loop_length [of content "[]"] by (auto simp: approximateGeminiTokenize_def)

text \<open>
  C1. For every input string, the empty one, white space only and strings with no
  letter or digit included, the concatenation in order of the tokens that each of the
  three tokenizers returns is the input string.
\<close>

theorem tokenizers_concat:
  "concat (approximateTokenize content) = content \<and>
   concat (approximateClaudeTokenize content) = content \<and>
   concat (approximateGeminiTokenize content) = content"
  by (simp add: approximateTokenize_def approximateClaudeTokenize_def
      approximateGeminiTokenize_def gpt_loop_concat claude_loop_concat gemini_loop_concat)

text \<open>
  C9. The three loops are total functions: each is defined by recursion on a
  \<open>remaining\<close> that every iteration makes shorter. On a non-empty \<open>remaining\<close> one
  iteration of each tokenizer leaves a strictly shorter \<open>remaining\<close>, whichever
  pattern or the fallback took the step; and no tokenizer returns more tokens than its
  input has code units.
\<close>

theorem tokenizers_progress_and_bound:
  assumes "remaining \<noteq> []"
  shows "length (snd (tokenize_step gpt_patterns gpt_emit remaining)) < length remaining \<and>
         length (snd (tokenize_step claude_patterns (\<lambda>word. [word]) remaining)) < length remaining \<and>
         length (snd (tokenize_step gemini_patterns (\<lambda>word. [word]) remaining)) < length remaining \<and>
         length (approximateTokenize content) \<le> length content \<and>
         length (approximateClaudeTokenize content) \<le> length content \<and>
         length (approximateGeminiTokenize content) \<le> length content"
proof -
  have step: "length (snd (tokenize_step ps emit remaining)) < length remaining"
    if "list_all sound ps" "emit_ok emit" for ps emit
    using tokenize_step_props [OF that assms, of "fst (tokenize_step ps emit remaining)"
        "snd (tokenize_step ps emit remaining)"]
    by simp
  have "length (approximateClaudeTokenize content) \<le> length content"
    using claude_loop_length [of content "[]"] by (simp add: approximateClaudeTokenize_def)
  moreover have "length (approximateGeminiTokenize content) \<le> length content"
    using gemini_loop_length [of content "[]"] by (simp add: approximateGeminiTokenize_def)
  ultimately show ?thesis
    using step [OF gpt_patterns_sound gpt_emit_ok] step [OF claude_patterns_sound single_emit_ok]
      step [OF gemini_patterns_sound single_emit_ok] approximateTokenize_length [of content]
    by simp
qed

theorem tokenizers_progress_and_bound_witness:
  "js ''####'' \<noteq> [] \<and>
   length (snd (tokenize_step gpt_patterns gpt_emit (js ''####''))) < length (js ''####'') \<and>
   length (snd (tokenize_step claude_patterns (\<lambda>word. [word]) (js ''####''))) < length (js ''####'') \<and>
   length (snd (tokenize_step gemini_patterns (\<lambda>word. [word]) (js ''####''))) < length (js ''####'') \<and>
   length (approximateTokenize (js ''####'')) \<le> length (js ''####'') \<and>
   length (approximateClaudeTokenize (js ''####'')) \<le> length (js ''####'') \<and>
   length (approximateGeminiTokenize (js ''####'')) \<le> length (js ''####'')"
proof -
  have ne: "js ''####'' \<noteq> []"
    by (simp add: js_def)
  show ?thesis
    using ne tokenizers_progress_and_bound [OF ne, of "js ''####''"] by simp
qed

section \<open>Properties of the chunker\<close>

declare partition_chunks.simps [simp del]

lemma partition_chunks_Nil [simp]: "partition_chunks n k [] = []"
  by (simp add: partition_chunks.simps)

lemma chunk_loop_partition:
  assumes "1 \<le> n"
  shows "length cc < n \<Longrightarrow> ts \<noteq> [] \<or> cc = [] \<Longrightarrow>
     chunk_loop (int n) ts
       \<lparr>chunks_acc = acc, currentChunk = cc, currentText = concat cc, tokenIndex = k\<rparr>
     = acc @ partition_chunks n k (cc @ ts)"
proof (induction ts arbitrary: acc cc k)
  case Nil
  then show ?case by simp
next
  case (Cons t ts)
  let ?cc = "cc @ [t]"
  show ?case
  proof (cases "n \<le> length ?cc \<or> ts = []")
    case True
    have le: "length ?cc \<le> n" using Cons.prems(1) by simp
    have tk: "take n (?cc @ ts) = ?cc"
      using True le by (cases "ts = []") auto
    have dr: "partition_chunks n (k + n) (drop n (?cc @ ts)) = partition_chunks n (k + length ?cc) ts"
      using True le by (cases "ts = []") auto
    have "partition_chunks n k (?cc @ ts) =
        \<lparr>chunk_tokens = ?cc, chunk_text = concat ?cc, startToken = k,
         endToken = k + length ?cc - 1, tokenCount = length ?cc\<rparr>
        # partition_chunks n (k + length ?cc) ts"
      using assms dr tk by (subst partition_chunks.simps) (simp del: append_assoc)
    moreover have "chunk_loop (int n) ts
       \<lparr>chunks_acc = acc @ [\<lparr>chunk_tokens = ?cc, chunk_text = concat ?cc, startToken = k,
         endToken = k + length ?cc - 1, tokenCount = length ?cc\<rparr>], currentChunk = [], currentText = concat [], tokenIndex = k + length ?cc\<rparr>
       = (acc @ [\<lparr>chunk_tokens = ?cc, chunk_text = concat ?cc, startToken = k,
         endToken = k + length ?cc - 1, tokenCount = length ?cc\<rparr>]) @ partition_chunks n (k + length ?cc) ([] @ ts)"
      using assms by (intro Cons.IH) simp_all
    ultimately show ?thesis
      using True by (simp add: Let_def)
  next
    case False
    then have "length ?cc < n" "ts \<noteq> []" by simp_all
    then have "chunk_loop (int n) ts
       \<lparr>chunks_acc = acc, currentChunk = ?cc, currentText = concat ?cc, tokenIndex = k\<rparr>
       = acc @ partition_chunks n k (?cc @ ts)"
      by (intro Cons.IH) simp_all
    then show ?thesis
      using False by (simp add: Let_def)
  qed
qed

lemma chunkContent_partition_chunks:
  "1 \<le> n \<Longrightarrow> chunkContent content toks (int n) = partition_chunks n 0 toks"
  using chunk_loop_partition [of n "[]" toks "[]" 0] by (simp add: chunkContent_def)


lemma partition_chunks_Cons:
  "1 \<le> n \<Longrightarrow> toks \<noteq> [] \<Longrightarrow>
   partition_chunks n k toks =
     \<lparr>chunk_tokens = take n toks, chunk_text = concat (take n toks), startToken = k,
      endToken = k + length (take n toks) - 1, tokenCount = length (take n toks)\<rparr>
     # partition_chunks n (k + n) (drop n toks)"
  by (subst partition_chunks.simps) simp

lemma length_partition_chunks:
  "1 \<le> n \<Longrightarrow> length (partition_chunks n k toks) = (length toks + n - 1) div n"
proof (induction n k toks rule: partition_chunks.induct)
  case (1 n k toks)
  show ?case
  proof (cases "toks = []")
    case True
    with 1 show ?thesis by simp
  next
    case False
    with "1.prems" have ih: "length (partition_chunks n (k + n) (drop n toks))
        = (length (drop n toks) + n - 1) div n"
      by (intro "1.IH") auto
    show ?thesis
    proof (cases "length toks \<le> n")
      case True
      with False "1.prems" have "(length toks + n - 1) div n = 1"
        by (cases toks) (simp_all add: div_eq_dividend_iff le_div_geq)
      with True False "1.prems" show ?thesis
        by (simp add: partition_chunks_Cons)
    next
      case gt: False
      then have "(length toks + n - 1) div n = Suc ((length toks - n + n - 1) div n)"
        using "1.prems" by (simp add: le_div_geq)
      with ih gt False "1.prems" show ?thesis
        by (simp add: partition_chunks_Cons)
    qed
  qed
qed

lemma nth_partition_chunks:
  "1 \<le> n \<Longrightarrow> j < length (partition_chunks n k toks) \<Longrightarrow>
   partition_chunks n k toks ! j =
     \<lparr>chunk_tokens = take n (drop (j * n) toks),
      chunk_text = concat (take n (drop (j * n) toks)),
      startToken = k + j * n,
      endToken = k + j * n + length (take n (drop (j * n) toks)) - 1,
      tokenCount = length (take n (drop (j * n) toks))\<rparr>"
proof (induction j arbitrary: k toks)
  case 0
  then have "toks \<noteq> []" by (cases toks) auto
  with 0 show ?case by (simp add: partition_chunks_Cons)
next
  case (Suc j)
  then have ne: "toks \<noteq> []" by (cases toks) auto
  with Suc.prems have "j < length (partition_chunks n (k + n) (drop n toks))"
    by (simp add: partition_chunks_Cons)
  from Suc.IH [OF Suc.prems(1) this] ne Suc.prems(1) show ?case
    by (simp add: partition_chunks_Cons add.commute add.left_commute)
qed

lemma concat_partition_chunks:
  "1 \<le> n \<Longrightarrow> concat (map chunk_text (partition_chunks n k toks)) = concat toks"
proof (induction n k toks rule: partition_chunks.induct)
  case (1 n k toks)
  show ?case
  proof (cases "toks = []")
    case True
    then show ?thesis by simp
  next
    case False
    with "1.prems" have "concat (map chunk_text (partition_chunks n (k + n) (drop n toks)))
        = concat (drop n toks)"
      by (intro "1.IH") auto
    moreover have "concat (take n toks) @ concat (drop n toks) = concat toks"
      by (metis append_take_drop_id concat_append)
    ultimately show ?thesis
      using False "1.prems" by (simp add: partition_chunks_Cons)
  qed
qed

lemma butlast_partition_chunks:
  "1 \<le> n \<Longrightarrow> c \<in> set (butlast (partition_chunks n k toks)) \<Longrightarrow> tokenCount c = n"
proof (induction n k toks rule: partition_chunks.induct)
  case (1 n k toks)
  show ?case
  proof (cases "toks = []")
    case True
    with "1.prems" show ?thesis by simp
  next
    case False
    show ?thesis
    proof (cases "drop n toks = []")
      case True
      with False "1.prems" show ?thesis
        by (simp add: partition_chunks_Cons [of n toks])
    next
      case dr: False
      then have "partition_chunks n (k + n) (drop n toks) \<noteq> []"
        using "1.prems"(1) by (simp add: partition_chunks_Cons [of n "drop n toks"])
      with "1.prems" False have "c = \<lparr>chunk_tokens = take n toks, chunk_text = concat (take n toks), startToken = k,
      endToken = k + length (take n toks) - 1, tokenCount = length (take n toks)\<rparr> \<or> c \<in> set (butlast (partition_chunks n (k + n) (drop n toks)))"
        by (simp add: partition_chunks_Cons [of n toks])
      then show ?thesis
      proof
        assume "c \<in> set (butlast (partition_chunks n (k + n) (drop n toks)))"
        with False "1.prems"(1) show ?thesis
          by (intro "1.IH") auto
      next
        assume "c = \<lparr>chunk_tokens = take n toks, chunk_text = concat (take n toks), startToken = k,
      endToken = k + length (take n toks) - 1, tokenCount = length (take n toks)\<rparr>"
        with dr show ?thesis by simp
      qed
    qed
  qed
qed

lemma last_partition_chunks:
  "1 \<le> n \<Longrightarrow> toks \<noteq> [] \<Longrightarrow>
   tokenCount (last (partition_chunks n k toks)) =
     (if length toks mod n = 0 then n else length toks mod n)"
proof (induction n k toks rule: partition_chunks.induct)
  case (1 n k toks)
  show ?case
  proof (cases "drop n toks = []")
    case True
    then have le: "length toks \<le> n" by simp
    have "length toks \<noteq> 0" using "1.prems" by simp
    with le have "(if length toks mod n = 0 then n else length toks mod n) = length toks"
      by (cases "length toks = n") auto
    with True "1.prems" le show ?thesis
      by (simp add: partition_chunks_Cons [of n toks])
  next
    case dr: False
    then have ne: "partition_chunks n (k + n) (drop n toks) \<noteq> []"
      using "1.prems"(1) by (simp add: partition_chunks_Cons [of n "drop n toks"])
    have "tokenCount (last (partition_chunks n (k + n) (drop n toks))) =
        (if length (drop n toks) mod n = 0 then n else length (drop n toks) mod n)"
      using "1.prems" dr by (intro "1.IH") auto
    moreover have "length (drop n toks) mod n = length toks mod n"
      using dr by (simp add: le_mod_geq)
    ultimately show ?thesis
      using ne "1.prems" by (simp add: partition_chunks_Cons [of n toks])
  qed
qed

lemma ceil_div_nat:
  assumes "1 \<le> n"
  shows "\<lceil>(of_nat N :: rat) / of_nat n\<rceil> = int ((N + n - 1) div n)"
proof (rule ceiling_unique)
  let ?q = "(N + n - 1) div n"
  have n0: "0 < n" using assms by simp
  have up: "?q * n \<le> N + n - 1"
    by simp
  have "N + n - 1 < ?q * n + n"
    using n0 by (metis add.commute dividend_less_div_times mult.commute)
  then have lo: "N \<le> ?q * n" using n0 by linarith
  have "(of_nat N :: rat) \<le> of_nat (?q * n)"
    using lo by (simp only: of_nat_le_iff)
  then show "(of_nat N :: rat) / of_nat n \<le> of_int (int ?q)"
    using n0 by (simp add: divide_le_eq)
  have "?q * n < N + n" using up n0 by linarith
  then have "(of_nat (?q * n) :: rat) < of_nat (N + n)"
    by (simp only: of_nat_less_iff)
  then show "of_int (int ?q) - 1 < (of_nat N :: rat) / of_nat n"
    using n0 by (simp add: less_divide_eq algebra_simps)
qed

text \<open>
  C2. For every token sequence of length \<open>N\<close> and every chunk size \<open>S \<ge> 1\<close> the
  chunker returns \<open>\<lceil>N / S\<rceil>\<close> chunks (none when \<open>N = 0\<close>); every chunk but the last
  has \<open>S\<close> tokens; the last has \<open>N mod S\<close> tokens, or \<open>S\<close> when \<open>S\<close> divides
  \<open>N\<close>; the chunk texts concatenated are the tokens concatenated; chunk \<open>j\<close> holds the
  tokens from index \<open>j * S\<close> on, its text is their concatenation, its start and end
  indices count from 0 and each chunk starts right after the end of the one before.
\<close>

theorem chunkContent_partition:
  assumes "1 \<le> chunkSize"
  shows
    "int (length (chunkContent content toks chunkSize)) =
       \<lceil>(of_nat (length toks) :: rat) / of_int chunkSize\<rceil> \<and>
     (\<forall>c \<in> set (butlast (chunkContent content toks chunkSize)). tokenCount c = nat chunkSize) \<and>
     (toks \<noteq> [] \<longrightarrow>
        tokenCount (last (chunkContent content toks chunkSize)) =
          (if length toks mod nat chunkSize = 0 then nat chunkSize
           else length toks mod nat chunkSize)) \<and>
     concat (map chunk_text (chunkContent content toks chunkSize)) = concat toks \<and>
     (\<forall>j < length (chunkContent content toks chunkSize).
        chunk_tokens (chunkContent content toks chunkSize ! j) =
          take (nat chunkSize) (drop (j * nat chunkSize) toks) \<and>
        chunk_text (chunkContent content toks chunkSize ! j) =
          concat (chunk_tokens (chunkContent content toks chunkSize ! j)) \<and>
        tokenCount (chunkContent content toks chunkSize ! j) =
          length (chunk_tokens (chunkContent content toks chunkSize ! j)) \<and>
        1 \<le> tokenCount (chunkContent content toks chunkSize ! j) \<and>
        startToken (chunkContent content toks chunkSize ! j) = j * nat chunkSize \<and>
        endToken (chunkContent content toks chunkSize ! j) + 1 =
          startToken (chunkContent content toks chunkSize ! j) +
          tokenCount (chunkContent content toks chunkSize ! j)) \<and>
     (\<forall>j. Suc j < length (chunkContent content toks chunkSize) \<longrightarrow>
        startToken (chunkContent content toks chunkSize ! Suc j) =
          endToken (chunkContent content toks chunkSize ! j) + 1)"
proof -
  define n where "n = nat chunkSize"
  define cs where "cs = chunkContent content toks chunkSize"
  have n1: "1 \<le> n" and S: "chunkSize = int n"
    using assms by (simp_all add: n_def)
  have cs: "cs = partition_chunks n 0 toks"
    unfolding cs_def S by (rule chunkContent_partition_chunks [OF n1])
  have len: "length cs = (length toks + n - 1) div n"
    unfolding cs by (rule length_partition_chunks [OF n1])
  have c1: "int (length cs) = \<lceil>(of_nat (length toks) :: rat) / of_int chunkSize\<rceil>"
    unfolding len S using ceil_div_nat [OF n1, of "length toks"] by simp
  have c2: "\<forall>c \<in> set (butlast cs). tokenCount c = n"
    unfolding cs using butlast_partition_chunks [OF n1] by blast
  have c3: "toks \<noteq> [] \<longrightarrow>
      tokenCount (last cs) = (if length toks mod n = 0 then n else length toks mod n)"
    unfolding cs using last_partition_chunks [OF n1] by blast
  have c4: "concat (map chunk_text cs) = concat toks"
    unfolding cs by (rule concat_partition_chunks [OF n1])
  have nth: "cs ! j =
     \<lparr>chunk_tokens = take n (drop (j * n) toks),
      chunk_text = concat (take n (drop (j * n) toks)),
      startToken = 0 + j * n,
      endToken = 0 + j * n + length (take n (drop (j * n) toks)) - 1,
      tokenCount = length (take n (drop (j * n) toks))\<rparr>" if "j < length cs" for j
    using that unfolding cs by (rule nth_partition_chunks [OF n1])
  have pos: "1 \<le> length (take n (drop (j * n) toks))" if "j < length cs" for j
  proof -
    from that have "Suc j \<le> (length toks + n - 1) div n"
      by (simp add: len)
    then have "Suc j * n \<le> length toks + n - 1"
      using n1 by (simp add: less_eq_div_iff_mult_less_eq)
    then have "j * n < length toks"
      using n1 by simp
    then show ?thesis
      using n1 by simp
  qed
  have c5: "\<forall>j < length cs.
        chunk_tokens (cs ! j) = take n (drop (j * n) toks) \<and>
        chunk_text (cs ! j) = concat (chunk_tokens (cs ! j)) \<and>
        tokenCount (cs ! j) = length (chunk_tokens (cs ! j)) \<and>
        1 \<le> tokenCount (cs ! j) \<and>
        startToken (cs ! j) = j * n \<and>
        endToken (cs ! j) + 1 = startToken (cs ! j) + tokenCount (cs ! j)"
  proof (intro allI impI)
    fix j assume j: "j < length cs"
    from pos [OF j] show "chunk_tokens (cs ! j) = take n (drop (j * n) toks) \<and>
        chunk_text (cs ! j) = concat (chunk_tokens (cs ! j)) \<and>
        tokenCount (cs ! j) = length (chunk_tokens (cs ! j)) \<and>
        1 \<le> tokenCount (cs ! j) \<and>
        startToken (cs ! j) = j * n \<and>
        endToken (cs ! j) + 1 = startToken (cs ! j) + tokenCount (cs ! j)"
      unfolding nth [OF j] by (simp del: length_take)
  qed
  have c6: "\<forall>j. Suc j < length cs \<longrightarrow> startToken (cs ! Suc j) = endToken (cs ! j) + 1"
  proof (intro allI impI)
    fix j assume j: "Suc j < length cs"
    then have j': "j < length cs" by simp
    from j have "cs ! j \<in> set (butlast cs)"
      by (metis Suc_lessD length_butlast less_diff_conv nth_butlast nth_mem Suc_eq_plus1)
    with c2 have "tokenCount (cs ! j) = n" by blast
    moreover from c5 j' have "endToken (cs ! j) + 1 = j * n + tokenCount (cs ! j)" by simp
    moreover from c5 j have "startToken (cs ! Suc j) = Suc j * n" by blast
    ultimately show "startToken (cs ! Suc j) = endToken (cs ! j) + 1" by simp
  qed
  from c1 c2 c3 c4 c5 c6 show ?thesis
    unfolding cs_def n_def by blast
qed

theorem chunkContent_partition_witness:
  "(1::int) \<le> 2 \<and>
   int (length (chunkContent [] [js ''a'', js ''b'', js ''c''] 2)) = 2 \<and>
   tokenCount (last (chunkContent [] [js ''a'', js ''b'', js ''c''] 2)) = 1 \<and>
   concat (map chunk_text (chunkContent [] [js ''a'', js ''b'', js ''c''] 2)) = js ''abc''"
proof -
  have h: "(1::int) \<le> 2"
    by simp
  have c: "\<lceil>(3::rat) / 2\<rceil> = 2"
    by (rule ceiling_unique) simp_all
  show ?thesis
    using h c chunkContent_partition [OF h, of "[]" "[js ''a'', js ''b'', js ''c'']"]
    by (simp add: js_def)
qed

section \<open>Properties of the analysis\<close>

lemma trim_Nil_iff: "trim s = [] \<longleftrightarrow> list_all is_space s"
proof
  assume "list_all is_space s"
  then have d: "dropWhile is_space s = []"
    by (simp add: list_all_iff)
  show "trim s = []"
    unfolding trim_def d by simp
next
  assume t: "trim s = []"
  show "list_all is_space s"
  proof (cases "dropWhile is_space s")
    case Nil
    then show ?thesis
      by (simp add: list_all_iff)
  next
    case (Cons x xs)
    then have "\<not> is_space x"
      by (metis hd_dropWhile list.distinct(1) list.sel(1))
    moreover from t Cons have "is_space x"
      by (simp add: trim_def)
    ultimately show ?thesis
      by simp
  qed
qed

lemma trim_nonempty: "trim s \<noteq> [] \<Longrightarrow> s \<noteq> []"
  by (auto simp: trim_def)

lemma chunk_loop_length:
  "length (chunks_acc st) + (if ts = [] then 0 else 1) \<le> length (chunk_loop chunkSize ts st)"
proof (induction ts arbitrary: st)
  case Nil
  show ?case by simp
next
  case (Cons t ts)
  show ?case
  proof (cases "int (length (currentChunk st @ [t])) \<ge> chunkSize \<or> ts = []")
    case True
    then show ?thesis
      using Cons.IH [of "\<lparr>chunks_acc = chunks_acc st @
                   [\<lparr>chunk_tokens = currentChunk st @ [t], chunk_text = currentText st @ t,
                     startToken = tokenIndex st,
                     endToken = tokenIndex st + length (currentChunk st @ [t]) - 1,
                     tokenCount = length (currentChunk st @ [t])\<rparr>],
                 currentChunk = [], currentText = [],
                 tokenIndex = tokenIndex st + length (currentChunk st @ [t])\<rparr>"]
      by (simp add: Let_def)
  next
    case False
    then show ?thesis
      using Cons.IH [of "st\<lparr>currentChunk := currentChunk st @ [t], currentText := currentText st @ t\<rparr>"]
      by (simp add: Let_def)
  qed
qed

lemma chunkContent_nonempty: "toks \<noteq> [] \<Longrightarrow> chunkContent content toks chunkSize \<noteq> []"
  using chunk_loop_length [of "\<lparr>chunks_acc = [], currentChunk = [], currentText = [], tokenIndex = 0\<rparr>" toks chunkSize]
  by (auto simp: chunkContent_def)

lemma analysis_Some:
  "analysis content chunkSize = Some r \<Longrightarrow>
     trim content \<noteq> [] \<and>
     gptTokens r = length (approximateTokenize content) \<and>
     chunks r = chunkContent content (approximateTokenize content) chunkSize \<and>
     variance r = Math_round
       (jsmul
          (jsdiv
             (jssub
                (of_count (max (length (approximateTokenize content))
                   (max (length (approximateClaudeTokenize content))
                      (length (approximateGeminiTokenize content)))))
                (of_count (min (length (approximateTokenize content))
                   (min (length (approximateClaudeTokenize content))
                      (length (approximateGeminiTokenize content))))))
             (of_count (length (approximateTokenize content))))
          (Fin 100)) \<and>
     wordsPerToken r =
       toFixed3 (jsdiv (of_count (count_words content))
         (of_count (length (approximateTokenize content)))) \<and>
     paragraphs r = map (paragraphAnalysis chunkSize) (enumerate 0 (splitParagraphs content)) \<and>
     entities r = map (entityAnalysis (approximateTokenize content) chunkSize)
       (extractEntities content)"
  by (auto simp: analysis_def Let_def split: if_splits)

text \<open>
  C7. When the input text trims to the empty string, which by \<open>trim_Nil_iff\<close> is
  when it is empty or all white space, the analysis is absent (\<open>None\<close>, the
  \<^verbatim>\<open>null\<close> of the source, and no error) and the list of hints derived from it is
  empty.
\<close>

theorem blank_input_no_analysis:
  assumes "trim content = []"
  shows "analysis content chunkSize = None \<and> hints (analysis content chunkSize) chunkSize = []"
  using assms by (simp add: analysis_def hints_def)

theorem blank_input_no_analysis_witness:
  "trim (js '' '') = [] \<and> analysis (js '' '') 100 = None \<and>
   hints (analysis (js '' '') 100) 100 = [] \<and>
   trim [] = [] \<and> analysis [] 100 = None \<and> hints (analysis [] 100) 100 = []"
proof -
  have a: "trim (js '' '') = []"
    by (simp add: trim_def js_def is_space_def)
  have b: "trim [] = []"
    by (simp add: trim_def)
  show ?thesis
    using a b blank_input_no_analysis [OF a, of 100] blank_input_no_analysis [OF b, of 100]
    by (simp add: hints_def)
qed

text \<open>
  C10. For every input whose trimmed form is not empty, each of the three tokenizers
  returns at least one token, and the analysis is a result whose primary token count is
  at least 1 and whose chunk list is not empty, whatever the chunk size.
\<close>

theorem nonblank_input_has_tokens:
  assumes "trim content \<noteq> []"
  shows "1 \<le> length (approximateTokenize content) \<and>
         1 \<le> length (approximateClaudeTokenize content) \<and>
         1 \<le> length (approximateGeminiTokenize content) \<and>
         (\<exists>r. analysis content chunkSize = Some r \<and> 1 \<le> gptTokens r \<and> chunks r \<noteq> [])"
proof -
  have ne: "content \<noteq> []"
    using assms by (rule trim_nonempty)
  have g: "approximateTokenize content \<noteq> []"
    using ne by (rule approximateTokenize_nonempty)
  have c: "approximateClaudeTokenize content \<noteq> []"
    using ne by (rule approximateClaudeTokenize_nonempty)
  have m: "approximateGeminiTokenize content \<noteq> []"
    using ne by (rule approximateGeminiTokenize_nonempty)
  obtain r where r: "analysis content chunkSize = Some r"
    using assms by (simp add: analysis_def Let_def)
  have "1 \<le> gptTokens r" "chunks r \<noteq> []"
    using analysis_Some [OF r] g chunkContent_nonempty [OF g]
    by (simp_all add: Suc_le_eq)
  with r g c m show ?thesis
    by (simp add: Suc_le_eq)
qed

theorem nonblank_input_has_tokens_witness:
  "trim (js ''Hi'') \<noteq> [] \<and>
   1 \<le> length (approximateTokenize (js ''Hi'')) \<and>
   1 \<le> length (approximateClaudeTokenize (js ''Hi'')) \<and>
   1 \<le> length (approximateGeminiTokenize (js ''Hi'')) \<and>
   (\<exists>r. analysis (js ''Hi'') 100 = Some r \<and> 1 \<le> gptTokens r \<and> chunks r \<noteq> [])"
proof -
  have a: "trim (js ''Hi'') \<noteq> []"
    by (simp add: trim_def js_def is_space_def)
  show ?thesis
    using a nonblank_input_has_tokens [OF a, of 100] by simp
qed

text \<open>
  C6. Whenever the analysis is a result, its primary token count is at least 1, so the
  two divisions by it divide by a positive number, and its variance percentage and its
  words-per-token ratio are finite numbers, neither NaN nor an infinity. There is no
  guard in the divisions themselves: the case of no tokens cannot occur, the analysis
  of a blank text being absent.
\<close>

theorem analysis_ratios_defined:
  assumes "analysis content chunkSize = Some r"
  shows "1 \<le> gptTokens r \<and> is_finite (variance r) \<and> is_finite (wordsPerToken r)"
proof -
  note a = analysis_Some [OF assms]
  from a have "content \<noteq> []"
    using trim_nonempty by blast
  then have g: "length (approximateTokenize content) \<noteq> 0"
    using approximateTokenize_nonempty by simp
  from g a have "1 \<le> gptTokens r"
    by (simp add: Suc_le_eq)
  moreover from a g have "is_finite (variance r)"
    by (simp add: of_count_def jssub_def Math_round_def is_finite_def)
  moreover from a g have "is_finite (wordsPerToken r)"
    by (simp add: of_count_def toFixed3_def is_finite_def)
  ultimately show ?thesis
    by simp
qed

theorem analysis_ratios_defined_witness:
  "\<exists>r. analysis (js ''API'') 100 = Some r \<and> 1 \<le> gptTokens r \<and>
     is_finite (variance r) \<and> is_finite (wordsPerToken r)"
proof -
  have "trim (js ''API'') \<noteq> []"
    by (simp add: trim_def js_def is_space_def)
  then obtain r where r: "analysis (js ''API'') 100 = Some r"
    by (simp add: analysis_def Let_def)
  from analysis_ratios_defined [OF r] r show ?thesis
    by simp
qed

section \<open>Properties of the attention model\<close>

text \<open>The doubles that the literals of \<^verbatim>\<open>getAttentionScore\<close> denote.\<close>

lemma fl_literals:
  "fl (15 / 100) = 5404319552844595 / 36028797018963968"
  "fl (5 / 10) = 1 / 2"
  "fl (95 / 100) = 4278419646001971 / 4503599627370496"
  "fl (55 / 100) = 2476979795053773 / 4503599627370496"
  "fl (3 / 10) = 5404319552844595 / 18014398509481984"
  by code_simp+

lemma fl_literals_reduced:
  "fl (1 / 2) = 1 / 2"
  "fl (19 / 20) = 4278419646001971 / 4503599627370496"
  "fl (11 / 20) = 2476979795053773 / 4503599627370496"
  using fl_literals by simp_all

lemma fl_error_unit:
  assumes "\<bar>x\<bar> \<le> 1"
  shows "\<bar>fl x - x\<bar> \<le> 1 / 9007199254740992"
proof -
  have "\<bar>x\<bar> / 2 ^ 53 \<le> 1 / 2 ^ 53"
    using assms by (simp add: divide_right_mono)
  with fl_error [of x] have "\<bar>fl x - x\<bar> \<le> 1 / 2 ^ 53"
    by linarith
  then show ?thesis
    by simp
qed

text \<open>The relative position that the code computes for the position \<open>0.15 \<times> S\<close> in a
  chunk of size \<open>S\<close> is 0.15 up to rounding.\<close>

lemma normalizedPos_near_boundary:
  assumes "1 \<le> S"
  shows "\<bar>fl (fl (fl (15 / 100) * S) / S) - 15 / 100\<bar> \<le> 1 / 10 ^ 15"
proof -
  define C :: rat where "C = 5404319552844595 / 36028797018963968"
  define p where "p = fl (C * S)"
  define r0 where "r0 = p / S"
  have S: "0 < S" using assms by simp
  have C: "0 < C" "C \<le> 1 / 4" "\<bar>C - 15 / 100\<bar> \<le> 1 / 10000000000000000"
    by (simp_all add: C_def)
  have "\<bar>p - C * S\<bar> \<le> \<bar>C * S\<bar> / 2 ^ 53"
    unfolding p_def by (rule fl_error)
  then have "\<bar>p - C * S\<bar> / S \<le> (C * S / 2 ^ 53) / S"
    using S C(1) by (intro divide_right_mono) (simp_all add: abs_mult)
  moreover have "\<bar>p - C * S\<bar> / S = \<bar>r0 - C\<bar>"
  proof -
    have "r0 - C = (p - C * S) / S"
      using S by (simp add: r0_def field_simps)
    then show ?thesis
      using S by (simp add: abs_divide)
  qed
  moreover have "(C * S / 2 ^ 53) / S = C / 9007199254740992"
    using S by simp
  ultimately have r0: "\<bar>r0 - C\<bar> \<le> C / 9007199254740992"
    by simp
  from r0 C(1,2) have "\<bar>r0\<bar> \<le> 1"
    by linarith
  then have "\<bar>fl r0 - r0\<bar> \<le> 1 / 9007199254740992"
    by (rule fl_error_unit)
  with r0 C have "\<bar>fl r0 - 15 / 100\<bar> \<le> 1 / 1000000000000000"
    by linarith
  then have "\<bar>fl r0 - 15 / 100\<bar> \<le> 1 / 10 ^ 15"
    by simp
  then show ?thesis
    unfolding r0_def p_def C_def fl_literals .
qed

text \<open>The two formulas at a relative position that is 0.15 up to rounding.\<close>

lemma attention_first_near:
  assumes "\<bar>r - 15 / 100\<bar> \<le> 1 / 10 ^ 15"
  shows "\<exists>a. attention_first (Fin r) = Fin a \<and> \<bar>a - 875 / 1000\<bar> \<le> 1 / 10 ^ 12"
proof -
  define t where "t = fl (r * (1 / 2))"
  define s where "s = 4278419646001971 / 4503599627370496 + - t"
  have r: "\<bar>r - 15 / 100\<bar> \<le> 1 / 1000000000000000"
    using assms by simp
  then have "\<bar>r * (1 / 2)\<bar> \<le> 1"
    by linarith
  then have t: "\<bar>t - r * (1 / 2)\<bar> \<le> 1 / 9007199254740992"
    unfolding t_def by (rule fl_error_unit)
  with r have s: "\<bar>s - 875 / 1000\<bar> \<le> 1 / 100000000000000"
    unfolding s_def by linarith
  then have "\<bar>s\<bar> \<le> 1"
    by linarith
  then have "\<bar>fl s - s\<bar> \<le> 1 / 9007199254740992"
    by (rule fl_error_unit)
  with s have "\<bar>fl s - 875 / 1000\<bar> \<le> 1 / 1000000000000"
    by linarith
  then have "\<bar>fl s - 875 / 1000\<bar> \<le> 1 / 10 ^ 12"
    by simp
  moreover have "attention_first (Fin r) = Fin (fl s)"
    by (simp add: attention_first_def jssub_def lit_def fl_literals fl_literals_reduced s_def t_def)
  ultimately show ?thesis
    by blast
qed

lemma attention_middle_near:
  assumes "\<bar>r - 15 / 100\<bar> \<le> 1 / 10 ^ 15"
  shows "\<exists>b. attention_middle (Fin r) = Fin b \<and> \<bar>b - 655 / 1000\<bar> \<le> 1 / 10 ^ 12"
proof -
  define d where "d = fl (r + - (1 / 2))"
  define m where "m = fl (\<bar>d\<bar> * (5404319552844595 / 18014398509481984))"
  define s where "s = 2476979795053773 / 4503599627370496 + m"
  have r: "\<bar>r - 15 / 100\<bar> \<le> 1 / 1000000000000000"
    using assms by simp
  then have "\<bar>r + - (1 / 2)\<bar> \<le> 1"
    by linarith
  then have d0: "\<bar>d - (r + - (1 / 2))\<bar> \<le> 1 / 9007199254740992"
    unfolding d_def by (rule fl_error_unit)
  from d0 r have d: "\<bar>\<bar>d\<bar> - 35 / 100\<bar> \<le> 1 / 100000000000000"
    by linarith
  then have m0: "\<bar>\<bar>d\<bar> * (5404319552844595 / 18014398509481984) - 105 / 1000\<bar>
      \<le> 1 / 100000000000000"
    by linarith
  then have "\<bar>\<bar>d\<bar> * (5404319552844595 / 18014398509481984)\<bar> \<le> 1"
    by linarith
  then have "\<bar>m - \<bar>d\<bar> * (5404319552844595 / 18014398509481984)\<bar> \<le> 1 / 9007199254740992"
    unfolding m_def by (rule fl_error_unit)
  with m0 have s: "\<bar>s - 655 / 1000\<bar> \<le> 1 / 10000000000000"
    unfolding s_def by linarith
  then have "\<bar>s\<bar> \<le> 1"
    by linarith
  then have "\<bar>fl s - s\<bar> \<le> 1 / 9007199254740992"
    by (rule fl_error_unit)
  with s have "\<bar>fl s - 655 / 1000\<bar> \<le> 1 / 1000000000000"
    by linarith
  then have "\<bar>fl s - 655 / 1000\<bar> \<le> 1 / 10 ^ 12"
    by simp
  moreover have "attention_middle (Fin r) = Fin (fl s)"
    by (simp add: attention_middle_def jssub_def lit_def fl_literals fl_literals_reduced Let_def
        s_def m_def d_def)
  ultimately show ?thesis
    by blast
qed

text \<open>
  C3, as claimed: for every chunk size \<open>S \<ge> 1\<close> the score of relative position 0.15
  by the formula of the first branch and by the formula of the middle branch are within
  floating tolerance of each other. At chunk size 100 and position 15 the first formula
  gives the double 0.875 and the middle one the double 0.655: they are not within a
  tenth of each other.
\<close>

theorem attention_boundary_counterexample:
  "attention_first (jsdiv (Fin 15) (num 100)) = Fin (7 / 8) \<and>
   attention_middle (jsdiv (Fin 15) (num 100)) = Fin (2949857755927675 / 4503599627370496) \<and>
   \<not> within_tolerance (1 / 10) (attention_first (jsdiv (Fin 15) (num 100)))
        (attention_middle (jsdiv (Fin 15) (num 100)))"
  by code_simp

text \<open>
  C3, amended: the two formulas are far apart at the boundary 0.15. For every chunk size
  \<open>S \<ge> 1\<close>, at the relative position that the code computes for the position
  \<open>0.15 \<times> S\<close>, the formula of the first branch gives 0.875 and the formula of the
  middle branch gives 0.655, each to within \<open>10\<^sup>-\<^sup>1\<^sup>2\<close>; so they differ by 0.22 and are
  not within a tenth of each other.
\<close>

theorem attention_jump_at_boundary:
  assumes "1 \<le> S"
  shows "within_tolerance (1 / 10 ^ 12)
           (attention_first (jsdiv (jsmul (lit (15 / 100)) (num S)) (num S))) (Fin (875 / 1000)) \<and>
         within_tolerance (1 / 10 ^ 12)
           (attention_middle (jsdiv (jsmul (lit (15 / 100)) (num S)) (num S))) (Fin (655 / 1000)) \<and>
         \<not> within_tolerance (1 / 10)
           (attention_first (jsdiv (jsmul (lit (15 / 100)) (num S)) (num S)))
           (attention_middle (jsdiv (jsmul (lit (15 / 100)) (num S)) (num S)))"
proof -
  define r where "r = fl (fl (fl (15 / 100) * of_int S) / of_int S)"
  have S: "(1::rat) \<le> of_int S"
    using assms by simp
  have np: "jsdiv (jsmul (lit (15 / 100)) (num S)) (num S) = Fin r"
    using assms by (simp add: lit_def num_def r_def)
  have near: "\<bar>r - 15 / 100\<bar> \<le> 1 / 10 ^ 15"
    unfolding r_def using S by (rule normalizedPos_near_boundary)
  obtain a where a: "attention_first (Fin r) = Fin a" "\<bar>a - 875 / 1000\<bar> \<le> 1 / 10 ^ 12"
    using attention_first_near [OF near] by blast
  obtain b where b: "attention_middle (Fin r) = Fin b" "\<bar>b - 655 / 1000\<bar> \<le> 1 / 10 ^ 12"
    using attention_middle_near [OF near] by blast
  have "\<bar>a - 875 / 1000\<bar> \<le> 1 / 1000000000000" "\<bar>b - 655 / 1000\<bar> \<le> 1 / 1000000000000"
    using a(2) b(2) by simp_all
  then have "\<not> \<bar>a - b\<bar> \<le> 1 / 10"
    by linarith
  with a b show ?thesis
    unfolding np by (simp add: within_tolerance_def)
qed

text \<open>At chunk size 109 the position \<open>0.15 \<times> 109\<close> is the double 16.349999999999998,
  its relative position is below the double 0.15, and the function takes the first
  branch; at chunk size 100 the position 15 takes the middle branch.\<close>

theorem attention_jump_at_boundary_witness:
  "(1::int) \<le> 109 \<and>
   within_tolerance (1 / 10 ^ 12)
     (attention_first (jsdiv (jsmul (lit (15 / 100)) (num 109)) (num 109))) (Fin (875 / 1000)) \<and>
   within_tolerance (1 / 10 ^ 12)
     (attention_middle (jsdiv (jsmul (lit (15 / 100)) (num 109)) (num 109))) (Fin (655 / 1000)) \<and>
   \<not> within_tolerance (1 / 10)
     (attention_first (jsdiv (jsmul (lit (15 / 100)) (num 109)) (num 109)))
     (attention_middle (jsdiv (jsmul (lit (15 / 100)) (num 109)) (num 109))) \<and>
   jsmul (lit (15 / 100)) (num 109) = Fin (4602115869219225 / 281474976710656) \<and>
   getAttentionScore (jsmul (lit (15 / 100)) (num 109)) (num 109) = Fin (7 / 8) \<and>
   getAttentionScore (Fin 15) (num 100) = Fin (2949857755927675 / 4503599627370496) \<and>
   getAttentionScore (Fin 14) (num 100) = Fin (990791918021509 / 1125899906842624)"
proof -
  have h: "(1::int) \<le> 109" by simp
  have e: "jsmul (lit (15 / 100)) (num 109) = Fin (4602115869219225 / 281474976710656)"
    "getAttentionScore (jsmul (lit (15 / 100)) (num 109)) (num 109) = Fin (7 / 8)"
    "getAttentionScore (Fin 15) (num 100) = Fin (2949857755927675 / 4503599627370496)"
    "getAttentionScore (Fin 14) (num 100) = Fin (990791918021509 / 1125899906842624)"
    by code_simp+
  from h e attention_jump_at_boundary [OF h] show ?thesis
    by blast
qed

section \<open>Properties of the entity extractor\<close>

text \<open>
  C4. The comment on the first pass reads "Capitalized words not at sentence start", but
  the lookbehind holds wherever no capital stands between the start of the sentence (or
  of the text) and the match, and so also right at that start. The pass reports the
  first word of a document and the first word after a full stop and a space.
\<close>

theorem sentence_initial_word_extracted:
  "capital_entities (js ''Hello world'') = [\<lparr>entity_text = js ''Hello'', position = 0\<rparr>] \<and>
   capital_entities (js ''it ends. Then more'') = [\<lparr>entity_text = js ''Then'', position = 9\<rparr>]"
  by code_simp

section \<open>Chunk sizes of 0 and below\<close>











section \<open>Properties of the paragraph splitter\<close>

lemma sep_newlines_pos:
  assumes "sep_newlines rest \<noteq> 0"
  shows "\<exists>r. rest = newline # newline # r \<and>
             take (sep_newlines rest) rest = newline # newline # takeWhile (\<lambda>c. c = newline) r \<and>
             drop (sep_newlines rest) rest = dropWhile (\<lambda>c. c = newline) r"
proof -
  from assms obtain r where r: "rest = newline # newline # r"
    by (auto simp: sep_newlines_def split: list.splits if_splits)
  have "sep_newlines rest = 2 + length (takeWhile (\<lambda>c. c = newline) r)"
    using r by (simp add: sep_newlines_def)
  with r show ?thesis
    by (simp add: takeWhile_eq_take [symmetric] dropWhile_eq_drop [symmetric])
qed

lemma sep_newlines_zero:
  assumes "sep_newlines (c # r) = 0" and "c = newline"
  shows "r = [] \<or> hd r \<noteq> newline"
  using assms by (cases r) (auto simp: sep_newlines_def split: if_splits)

lemma split_loop_Nil: "split_loop sep piece [] = [piece]"
  by (simp add: split_loop.simps)

lemma split_loop_skip:
  "sep (c # r) = 0 \<Longrightarrow> split_loop sep piece (c # r) = split_loop sep (piece @ [c]) r"
  by (simp add: split_loop.simps [of sep piece "c # r"])

lemma split_loop_cut:
  "rest \<noteq> [] \<Longrightarrow> sep rest \<noteq> 0 \<Longrightarrow>
   split_loop sep piece rest = piece # split_loop sep [] (drop (sep rest) rest)"
  by (simp add: split_loop.simps [of sep piece rest])

lemma split_loop_nonempty: "split_loop sep piece rest \<noteq> []"
  by (induction sep piece rest rule: split_loop.induct)
     (simp add: split_loop.simps)

lemma split_loop_weave_aux:
  "sep = sep_newlines \<Longrightarrow>
   \<exists>seps. length (split_loop sep piece rest) = length seps + 1 \<and>
      (\<forall>s \<in> set seps. 2 \<le> length s \<and> set s \<subseteq> {newline}) \<and>
      weave (split_loop sep piece rest) seps = piece @ rest"
proof (induction sep piece rest rule: split_loop.induct)
  case (1 sep piece rest)
  note sep = \<open>sep = sep_newlines\<close>
  show ?case
  proof (cases rest)
    case Nil
    have "length [piece] = length ([] :: jsstring list) + 1 \<and>
        (\<forall>s \<in> set ([] :: jsstring list). 2 \<le> length s \<and> set s \<subseteq> {newline}) \<and>
        weave [piece] [] = piece @ []"
      by simp
    then show ?thesis
      unfolding Nil split_loop_Nil by blast
  next
    case (Cons c r)
    then have ne: "rest \<noteq> []" by simp
    show ?thesis
    proof (cases "sep rest = 0")
      case True
      have eq: "split_loop sep piece (c # r) = split_loop sep (piece @ [c]) r"
        using True unfolding Cons by (rule split_loop_skip)
      from "1.IH"(1) [OF ne True sep]
      obtain seps where "length (split_loop sep (piece @ [c]) r) = length seps + 1"
        "\<forall>s \<in> set seps. 2 \<le> length s \<and> set s \<subseteq> {newline}"
        "weave (split_loop sep (piece @ [c]) r) seps = (piece @ [c]) @ r"
        unfolding Cons by auto
      then show ?thesis
        unfolding Cons eq by auto
    next
      case False
      let ?k = "sep rest"
      let ?R = "split_loop sep [] (drop ?k rest)"
      from sep_newlines_pos [of rest] False sep obtain r' where
        tk: "take ?k rest = newline # newline # takeWhile (\<lambda>c. c = newline) r'"
        by blast
      have sp: "2 \<le> length (take ?k rest) \<and> set (take ?k rest) \<subseteq> {newline}"
        unfolding tk by (auto dest: set_takeWhileD)
      have eq: "split_loop sep piece rest = piece # ?R"
        using ne False by (rule split_loop_cut)
      from "1.IH"(2) [OF ne False sep]
      obtain seps where s: "length ?R = length seps + 1"
        "\<forall>s \<in> set seps. 2 \<le> length s \<and> set s \<subseteq> {newline}"
        "weave ?R seps = [] @ drop ?k rest"
        by auto
      have "length (piece # ?R) = length (take ?k rest # seps) + 1 \<and>
        (\<forall>s \<in> set (take ?k rest # seps). 2 \<le> length s \<and> set s \<subseteq> {newline}) \<and>
        weave (piece # ?R) (take ?k rest # seps) = piece @ rest"
        using s sp by simp
      then show ?thesis
        unfolding eq by blast
    qed
  qed
qed

lemma has_double_newline_snoc:
  "has_double_newline (xs @ [c]) \<longleftrightarrow>
     has_double_newline xs \<or> (xs \<noteq> [] \<and> last xs = newline \<and> c = newline)"
  by (induction xs rule: has_double_newline.induct) auto

lemma split_loop_no_double_newline:
  "sep = sep_newlines \<Longrightarrow> \<not> has_double_newline piece \<Longrightarrow>
   (piece \<noteq> [] \<and> last piece = newline \<longrightarrow> rest = [] \<or> hd rest \<noteq> newline) \<Longrightarrow>
   p \<in> set (split_loop sep piece rest) \<Longrightarrow> \<not> has_double_newline p"
proof (induction sep piece rest rule: split_loop.induct)
  case (1 sep piece rest)
  note sep = \<open>sep = sep_newlines\<close>
  show ?case
  proof (cases rest)
    case Nil
    with "1.prems" show ?thesis
      by (simp add: split_loop_Nil)
  next
    case (Cons c r)
    then have ne: "rest \<noteq> []" by simp
    show ?thesis
    proof (cases "sep rest = 0")
      case True
      have eq: "split_loop sep piece (c # r) = split_loop sep (piece @ [c]) r"
        using True unfolding Cons by (rule split_loop_skip)
      have a: "\<not> has_double_newline (piece @ [c])"
        using "1.prems"(2,3) Cons by (auto simp: has_double_newline_snoc)
      have b: "(piece @ [c]) \<noteq> [] \<and> last (piece @ [c]) = newline \<longrightarrow> r = [] \<or> hd r \<noteq> newline"
        using sep_newlines_zero [of c r] True sep Cons by auto
      from "1.prems"(4) have "p \<in> set (split_loop sep (piece @ [hd rest]) (tl rest))"
        unfolding Cons eq by simp
      from "1.IH"(1) [OF ne True sep _ _ this] a b show ?thesis
        unfolding Cons by simp
    next
      case False
      have eq: "split_loop sep piece rest = piece # split_loop sep [] (drop (sep rest) rest)"
        using ne False by (rule split_loop_cut)
      from "1.prems"(4) have "p = piece \<or> p \<in> set (split_loop sep [] (drop (sep rest) rest))"
        unfolding eq by simp
      then show ?thesis
      proof
        assume "p = piece"
        with "1.prems"(2) show ?thesis by simp
      next
        assume "p \<in> set (split_loop sep [] (drop (sep rest) rest))"
        from "1.IH"(2) [OF ne False sep _ _ this] show ?thesis by simp
      qed
    qed
  qed
qed

lemma split_loop_butlast:
  "sep = sep_newlines \<Longrightarrow>
   (piece \<noteq> [] \<and> last piece = newline \<longrightarrow> rest = [] \<or> hd rest \<noteq> newline) \<Longrightarrow>
   p \<in> set (butlast (split_loop sep piece rest)) \<Longrightarrow> p = [] \<or> last p \<noteq> newline"
proof (induction sep piece rest rule: split_loop.induct)
  case (1 sep piece rest)
  note sep = \<open>sep = sep_newlines\<close>
  show ?case
  proof (cases rest)
    case Nil
    with "1.prems" show ?thesis
      by (simp add: split_loop_Nil)
  next
    case (Cons c r)
    then have ne: "rest \<noteq> []" by simp
    show ?thesis
    proof (cases "sep rest = 0")
      case True
      have eq: "split_loop sep piece (c # r) = split_loop sep (piece @ [c]) r"
        using True unfolding Cons by (rule split_loop_skip)
      have b: "(piece @ [c]) \<noteq> [] \<and> last (piece @ [c]) = newline \<longrightarrow> r = [] \<or> hd r \<noteq> newline"
        using sep_newlines_zero [of c r] True sep Cons by auto
      from "1.prems"(3) have "p \<in> set (butlast (split_loop sep (piece @ [hd rest]) (tl rest)))"
        unfolding Cons eq by simp
      from "1.IH"(1) [OF ne True sep _ this] b show ?thesis
        unfolding Cons by simp
    next
      case False
      have eq: "split_loop sep piece rest = piece # split_loop sep [] (drop (sep rest) rest)"
        using ne False by (rule split_loop_cut)
      from sep_newlines_pos [of rest] False sep have "hd rest = newline"
        by auto
      with "1.prems"(2) ne have pc: "piece = [] \<or> last piece \<noteq> newline"
        by auto
      from "1.prems"(3) have "p = piece \<or> p \<in> set (butlast (split_loop sep [] (drop (sep rest) rest)))"
        unfolding eq by (simp add: split_loop_nonempty)
      then show ?thesis
      proof
        assume "p = piece"
        with pc show ?thesis by simp
      next
        assume "p \<in> set (butlast (split_loop sep [] (drop (sep rest) rest)))"
        from "1.IH"(2) [OF ne False sep _ this] show ?thesis by simp
      qed
    qed
  qed
qed


lemma weave_first: "ps \<noteq> [] \<Longrightarrow> \<exists>t. weave ps seps = hd ps @ t"
  by (cases ps; cases seps) simp_all

lemma split_loop_tl:
  "sep = sep_newlines \<Longrightarrow> p \<in> set (tl (split_loop sep piece rest)) \<Longrightarrow>
   p = [] \<or> hd p \<noteq> newline"
proof (induction sep piece rest rule: split_loop.induct)
  case (1 sep piece rest)
  note sep = \<open>sep = sep_newlines\<close>
  show ?case
  proof (cases rest)
    case Nil
    with "1.prems" show ?thesis
      by (simp add: split_loop_Nil)
  next
    case (Cons c r)
    then have ne: "rest \<noteq> []" by simp
    show ?thesis
    proof (cases "sep rest = 0")
      case True
      have eq: "split_loop sep piece (c # r) = split_loop sep (piece @ [c]) r"
        using True unfolding Cons by (rule split_loop_skip)
      from "1.prems"(2) have "p \<in> set (tl (split_loop sep (piece @ [hd rest]) (tl rest)))"
        unfolding Cons eq by simp
      from "1.IH"(1) [OF ne True sep this] show ?thesis .
    next
      case False
      let ?R = "split_loop sep [] (drop (sep rest) rest)"
      have eq: "split_loop sep piece rest = piece # ?R"
        using ne False by (rule split_loop_cut)
      have R: "?R \<noteq> []" by (rule split_loop_nonempty)
      from "1.prems"(2) have pR: "p \<in> set ?R"
        unfolding eq by simp
      have "p = hd ?R \<or> p \<in> set (tl ?R)"
        by (metis R pR list.collapse set_ConsD)
      then show ?thesis
      proof
        assume "p \<in> set (tl ?R)"
        from "1.IH"(2) [OF ne False sep this] show ?thesis .
      next
        assume p: "p = hd ?R"
        from sep_newlines_pos [of rest] False sep obtain r' where
          dr: "drop (sep rest) rest = dropWhile (\<lambda>c. c = newline) r'"
          by blast
        from split_loop_weave_aux [OF sep, of "[]" "drop (sep rest) rest"]
        obtain seps where "weave ?R seps = [] @ drop (sep rest) rest"
          by auto
        note w = this
        from weave_first [OF R, of seps] obtain t0 where "weave ?R seps = hd ?R @ t0"
          by blast
        then have t: "drop (sep rest) rest = p @ t0"
          using \<open>weave ?R seps = [] @ drop (sep rest) rest\<close> p by simp
        show ?thesis
        proof (cases p)
          case Nil
          then show ?thesis by simp
        next
          case (Cons x xs)
          with t dr have dw: "dropWhile (\<lambda>c. c = newline) r' = x # xs @ t0"
            by simp
          then have "dropWhile (\<lambda>c. c = newline) r' \<noteq> []"
            by simp
          from hd_dropWhile [OF this] have "x \<noteq> newline"
            unfolding dw by simp
          with Cons show ?thesis by simp
        qed
      qed
    qed
  qed
qed

lemma split_loop_set:
  "p \<in> set (split_loop sep piece rest) \<Longrightarrow> set p \<subseteq> set piece \<union> set rest"
proof (induction sep piece rest rule: split_loop.induct)
  case (1 sep piece rest)
  show ?case
  proof (cases rest)
    case Nil
    with "1.prems" show ?thesis
      by (simp add: split_loop_Nil)
  next
    case (Cons c r)
    then have ne: "rest \<noteq> []" by simp
    show ?thesis
    proof (cases "sep rest = 0")
      case True
      have eq: "split_loop sep piece (c # r) = split_loop sep (piece @ [c]) r"
        using True unfolding Cons by (rule split_loop_skip)
      from "1.prems" have "p \<in> set (split_loop sep (piece @ [hd rest]) (tl rest))"
        unfolding Cons eq by simp
      from "1.IH"(1) [OF ne True this] show ?thesis
        unfolding Cons by auto
    next
      case False
      have eq: "split_loop sep piece rest = piece # split_loop sep [] (drop (sep rest) rest)"
        using ne False by (rule split_loop_cut)
      from "1.prems" have "p = piece \<or> p \<in> set (split_loop sep [] (drop (sep rest) rest))"
        unfolding eq by simp
      then show ?thesis
      proof
        assume "p = piece"
        then show ?thesis by simp
      next
        assume "p \<in> set (split_loop sep [] (drop (sep rest) rest))"
        from "1.IH"(2) [OF ne False this] have "set p \<subseteq> set (drop (sep rest) rest)"
          by simp
        also have "\<dots> \<subseteq> set rest"
          by (rule set_drop_subset)
        finally show ?thesis by auto
      qed
    qed
  qed
qed

lemma splitParagraphs_blank:
  assumes "trim content = []"
  shows "splitParagraphs content = []"
proof -
  have "trim p = []" if "p \<in> set (split_loop sep_newlines [] content)" for p
  proof -
    from split_loop_set [OF that] have "set p \<subseteq> set content"
      by simp
    moreover from assms have "\<forall>c \<in> set content. is_space c"
      by (simp add: trim_Nil_iff list_all_iff)
    ultimately have "list_all is_space p"
      by (auto simp: list_all_iff)
    then show ?thesis
      by (simp add: trim_Nil_iff)
  qed
  then show ?thesis
    by (simp add: splitParagraphs_def filter_empty_conv)
qed

text \<open>
  C8, as claimed: the text of each paragraph has its leading and trailing white space
  trimmed. The text \<open>" a "\<close> is one paragraph, kept with both its spaces, and so is
  the text of its paragraph record.
\<close>

theorem paragraphs_not_trimmed_counterexample:
  "splitParagraphs (js '' a '') = [js '' a ''] \<and> trim (js '' a '') = js ''a'' \<and>
   para_text (paragraphAnalysis 100 (0, js '' a '')) = js '' a ''"
  by code_simp

text \<open>
  C8, amended: the splitter cuts the input at runs of two or more newlines, each run
  taken whole: the pieces put back around such runs give the input, no piece holds two
  newlines in a row, no piece before a run ends in a newline and no piece after a run
  begins with one. The paragraphs are the pieces, in order and as they are (not
  trimmed), that are not empty after trimming. Empty or all white space input gives no
  paragraph.
\<close>

theorem splitParagraphs_pieces:
  "(\<exists>seps. length (split_loop sep_newlines [] content) = length seps + 1 \<and>
      (\<forall>s \<in> set seps. 2 \<le> length s \<and> set s \<subseteq> {newline}) \<and>
      weave (split_loop sep_newlines [] content) seps = content) \<and>
   (\<forall>p \<in> set (split_loop sep_newlines [] content). \<not> has_double_newline p) \<and>
   (\<forall>p \<in> set (butlast (split_loop sep_newlines [] content)). p = [] \<or> last p \<noteq> newline) \<and>
   (\<forall>p \<in> set (tl (split_loop sep_newlines [] content)). p = [] \<or> hd p \<noteq> newline) \<and>
   splitParagraphs content = filter (\<lambda>p. trim p \<noteq> []) (split_loop sep_newlines [] content) \<and>
   (trim content = [] \<longrightarrow> splitParagraphs content = [])"
proof -
  have a: "\<exists>seps. length (split_loop sep_newlines [] content) = length seps + 1 \<and>
      (\<forall>s \<in> set seps. 2 \<le> length s \<and> set s \<subseteq> {newline}) \<and>
      weave (split_loop sep_newlines [] content) seps = content"
    using split_loop_weave_aux [OF refl, of "[]" content] by simp
  have b: "\<forall>p \<in> set (split_loop sep_newlines [] content). \<not> has_double_newline p"
    using split_loop_no_double_newline [OF refl, of "[]" content] by simp
  have c: "\<forall>p \<in> set (butlast (split_loop sep_newlines [] content)). p = [] \<or> last p \<noteq> newline"
    using split_loop_butlast [OF refl, of "[]" content] by blast
  have d: "\<forall>p \<in> set (tl (split_loop sep_newlines [] content)). p = [] \<or> hd p \<noteq> newline"
    using split_loop_tl [OF refl, of _ "[]" content] by blast
  have e: "splitParagraphs content = filter (\<lambda>p. trim p \<noteq> []) (split_loop sep_newlines [] content)"
    by (simp add: splitParagraphs_def)
  from a b c d e splitParagraphs_blank [of content] show ?thesis
    by blast
qed

theorem splitParagraphs_pieces_witness:
  "splitParagraphs (js ''a'' @ [newline, newline, newline] @ js '' b '' @ [newline, newline] @ js '' '')
     = [js ''a'', js '' b ''] \<and>
   split_loop sep_newlines [] (js ''a'' @ [newline, newline, newline] @ js '' b '' @ [newline, newline] @ js '' '')
     = [js ''a'', js '' b '', js '' ''] \<and>
   list_all (\<lambda>p. \<not> has_double_newline p)
     (split_loop sep_newlines [] (js ''a'' @ [newline, newline, newline] @ js '' b '' @ [newline, newline] @ js '' '')) \<and>
   trim (js '' '') = [] \<and> splitParagraphs (js '' '') = []"
proof -
  define X where
    "X = js ''a'' @ [newline, newline, newline] @ js '' b '' @ [newline, newline] @ js '' ''"
  have s: "split_loop sep_newlines [] X = [js ''a'', js '' b '', js '' '']"
    unfolding X_def by code_simp
  have t: "trim (js '' '') = []" "trim (js ''a'') \<noteq> []" "trim (js '' b '') \<noteq> []"
    by (simp_all add: trim_def js_def is_space_def)
  have "splitParagraphs X = filter (\<lambda>p. trim p \<noteq> []) (split_loop sep_newlines [] X)"
    using splitParagraphs_pieces [of X] by blast
  then have w1: "splitParagraphs X = [js ''a'', js '' b '']"
    unfolding s using t by simp
  have "\<forall>p \<in> set (split_loop sep_newlines [] X). \<not> has_double_newline p"
    using splitParagraphs_pieces [of X] by blast
  then have w2: "list_all (\<lambda>p. \<not> has_double_newline p) (split_loop sep_newlines [] X)"
    by (simp only: list_all_iff)
  have w3: "splitParagraphs (js '' '') = []"
    using splitParagraphs_pieces [of "js '' ''"] t(1) by blast
  from w1 s w2 t(1) w3 show ?thesis
    unfolding X_def by blast
qed

end
